theory Spec2Isabelle
  imports Complex_Main "HOL-Library.Monad_Syntax" "HOL-Library.Multiset"
begin

section \<open>Data model of AStarJFA.py\<close>

text \<open>
  A state is the dictionary with the three feature arrays \<^verbatim>\<open>Effectors\<close>,
  \<^verbatim>\<open>Targets\<close> and \<^verbatim>\<open>Opportunities\<close>. The search reads two columns of a target row
  (\<^verbatim>\<open>JF.TaskFeatures.VALUE\<close>, \<^verbatim>\<open>JF.TaskFeatures.SELECTED\<close>) and two columns of an
  opportunity cell (\<^verbatim>\<open>JF.OpportunityFeatures.SELECTABLE\<close>,
  \<^verbatim>\<open>JF.OpportunityFeatures.PSUCCESS\<close>); the remaining columns are kept as a list so
  that equality of states still compares every element. The numbers of the arrays are
  modelled as exact rationals: rounding of the machine floats is not part of the model.
\<close>

record target =
  VALUE :: rat
  SELECTED :: rat
  target_rest :: "rat list"

record opportunity =
  SELECTABLE :: rat
  PSUCCESS :: rat
  opportunity_rest :: "rat list"

record state =
  Effectors :: "rat list list"
  Targets :: "target list"
  Opportunities :: "opportunity list list"

type_synonym action = "nat \<times> nat"

datatype error = IndexError | ValueError

text \<open>
  A node of the search. Python nodes are objects: \<^verbatim>\<open>node.g\<close> is assigned after the
  node was created, and a child keeps a reference to its parent. So the nodes live in a
  store (a list, the index is the identity of the object) and \<open>parent\<close> is an index
  into it; \<open>parent = None\<close> is the node without the attribute \<^verbatim>\<open>parent\<close>.
\<close>

record Node =
  g :: rat
  action :: "action option"
  state :: state
  reward :: rat
  terminal :: bool
  parent :: "nat option"

text \<open>\<^verbatim>\<open>Node.__eq__\<close>: three comparisons of arrays, each ending the test when it differs.\<close>

definition Node_eq :: "Node \<Rightarrow> Node \<Rightarrow> bool" where
  "Node_eq self other =
     (if Effectors (state self) \<noteq> Effectors (state other) then False
      else if Targets (state self) \<noteq> Targets (state other) then False
      else if Opportunities (state self) \<noteq> Opportunities (state other) then False
      else True)"

text \<open>\<^verbatim>\<open>Node.__lt__\<close> on two nodes.\<close>

definition Node_lt :: "Node \<Rightarrow> Node \<Rightarrow> bool" where
  "Node_lt self other = (g self < g other)"

section \<open>The binary heap of heapq\<close>

text \<open>
  \<^verbatim>\<open>heapq.heappush\<close> and \<^verbatim>\<open>heapq.heappop\<close> as the standard library defines them, on a
  list and with the comparison \<open>lt\<close> of the elements (\<^verbatim>\<open>__lt__\<close>).
\<close>

function siftdown_loop :: "('a \<Rightarrow> 'a \<Rightarrow> bool) \<Rightarrow> 'a list \<Rightarrow> nat \<Rightarrow> nat \<Rightarrow> 'a \<Rightarrow> 'a list" where
  "siftdown_loop lt heap startpos pos newitem =
     (if pos > startpos then
        (let parentpos = (pos - 1) div 2; par = heap ! parentpos in
         if lt newitem par then siftdown_loop lt (heap[pos := par]) startpos parentpos newitem
         else heap[pos := newitem])
      else heap[pos := newitem])"
  by pat_completeness auto
termination
  by (relation "measure (\<lambda>(lt, heap, startpos, pos, newitem). pos)") auto

declare siftdown_loop.simps [simp del]

definition siftdown :: "('a \<Rightarrow> 'a \<Rightarrow> bool) \<Rightarrow> 'a list \<Rightarrow> nat \<Rightarrow> nat \<Rightarrow> 'a list" where
  "siftdown lt heap startpos pos = siftdown_loop lt heap startpos pos (heap ! pos)"

function siftup_loop :: "('a \<Rightarrow> 'a \<Rightarrow> bool) \<Rightarrow> 'a list \<Rightarrow> nat \<Rightarrow> 'a list \<times> nat" where
  "siftup_loop lt heap pos =
     (let endpos = length heap; childpos = 2 * pos + 1 in
      if childpos < endpos then
        (let rightpos = childpos + 1;
             childpos' = (if rightpos < endpos \<and> \<not> lt (heap ! childpos) (heap ! rightpos)
                          then rightpos else childpos)
         in siftup_loop lt (heap[pos := heap ! childpos']) childpos')
      else (heap, pos))"
  by pat_completeness auto
termination
  by (relation "measure (\<lambda>(lt, heap, pos). length heap - pos)") (auto simp: Let_def)

declare siftup_loop.simps [simp del]

definition siftup :: "('a \<Rightarrow> 'a \<Rightarrow> bool) \<Rightarrow> 'a list \<Rightarrow> nat \<Rightarrow> 'a list" where
  "siftup lt heap pos =
     (let newitem = heap ! pos; (heap', pos') = siftup_loop lt heap pos
      in siftdown lt (heap'[pos' := newitem]) pos pos')"

definition heappush :: "('a \<Rightarrow> 'a \<Rightarrow> bool) \<Rightarrow> 'a list \<Rightarrow> 'a \<Rightarrow> 'a list" where
  "heappush lt heap item = siftdown lt (heap @ [item]) 0 (length heap)"

text \<open>\<open>heappop\<close> is only called on a non-empty heap (the loop tests \<^verbatim>\<open>while frontier\<close>).\<close>

definition heappop :: "('a \<Rightarrow> 'a \<Rightarrow> bool) \<Rightarrow> 'a list \<Rightarrow> 'a \<times> 'a list" where
  "heappop lt heap =
     (let lastelt = last heap; heap' = butlast heap in
      if heap' \<noteq> [] then (heap' ! 0, siftup lt (heap'[0 := lastelt]) 0)
      else (lastelt, heap'))"

section \<open>The heuristics\<close>

text \<open>\<^verbatim>\<open>int(x)\<close> of a number: the fraction is cut off, towards zero.\<close>

definition py_int :: "rat \<Rightarrow> int" where
  "py_int x = (if 0 \<le> x then \<lfloor>x\<rfloor> else \<lceil>x\<rceil>)"

text \<open>
  The slice \<^verbatim>\<open>state['Opportunities'][:, i, ...]\<close>: the cells of every effector against
  target \<open>i\<close>. The index is out of bounds when the array has no column \<open>i\<close>.
\<close>

definition column :: "opportunity list list \<Rightarrow> nat \<Rightarrow> error + opportunity list" where
  "column opps i =
     (if list_all (\<lambda>row. i < length row) opps then Inr (map (\<lambda>row. row ! i) opps)
      else Inl IndexError)"

text \<open>
  \<^verbatim>\<open>np.argpartition(a, -1)[-1:]\<close> followed by \<^verbatim>\<open>top[0]\<close>. The library function is a
  parameter \<open>argpartition\<close> (the array to the array of indices, for \<^verbatim>\<open>kth = -1\<close>): which
  index it puts last among equal elements is not fixed by its documentation. On an empty
  array \<^verbatim>\<open>kth\<close> is out of bounds.
\<close>

definition top_effector :: "(rat list \<Rightarrow> nat list) \<Rightarrow> opportunity list \<Rightarrow> error + nat" where
  "top_effector argpartition col =
     (if col = [] then Inl ValueError
      else let top0 = last (argpartition (map PSUCCESS col)) in
        if top0 < length col then Inr top0 else Inl IndexError)"

text \<open>The index \<^verbatim>\<open>top[0]\<close> that \<^verbatim>\<open>astar_heuristic\<close> computes for target \<open>i\<close>: the
  effector of the opportunity it engages.\<close>

definition best_opportunity :: "(rat list \<Rightarrow> nat list) \<Rightarrow> state \<Rightarrow> nat \<Rightarrow> error + nat" where
  "best_opportunity argpartition s i =
     (case column (Opportunities s) i of
        Inl e \<Rightarrow> Inl e
      | Inr col \<Rightarrow> top_effector argpartition col)"

text \<open>The loop \<^verbatim>\<open>for move in range(remaining_moves)\<close>.\<close>

fun engage :: "nat \<Rightarrow> rat \<Rightarrow> rat \<Rightarrow> rat \<Rightarrow> rat" where
  "engage 0 p value remaining_reward = remaining_reward"
| "engage (Suc n) p value remaining_reward =
     (let reward = value * p in engage n p (value - reward) (remaining_reward + reward))"

text \<open>The body of the loop over the targets, for target \<open>i\<close>.\<close>

definition heuristic_target ::
  "(rat list \<Rightarrow> nat list) \<Rightarrow> state \<Rightarrow> nat \<Rightarrow> target \<Rightarrow> rat \<Rightarrow> error + rat" where
  "heuristic_target argpartition s i tgt remaining_reward =
     (if SELECTED tgt = 1 then Inr remaining_reward
      else case column (Opportunities s) i of
        Inl e \<Rightarrow> Inl e
      | Inr col \<Rightarrow>
          (let remaining_moves =
                 py_int (min ((1 - SELECTED tgt) * 2) (sum_list (map (\<lambda>opp. SELECTABLE opp * 2) col)))
           in if remaining_moves = 0 then Inr remaining_reward
              else case top_effector argpartition col of
                Inl e \<Rightarrow> Inl e
              | Inr top0 \<Rightarrow>
                  Inr (engage (nat remaining_moves) (PSUCCESS (col ! top0)) (VALUE tgt)
                         remaining_reward)))"

fun heuristic_targets ::
  "(rat list \<Rightarrow> nat list) \<Rightarrow> state \<Rightarrow> (nat \<times> target) list \<Rightarrow> rat \<Rightarrow> error + rat" where
  "heuristic_targets argpartition s [] remaining_reward = Inr remaining_reward"
| "heuristic_targets argpartition s ((i, tgt) # rest) remaining_reward =
     (case heuristic_target argpartition s i tgt remaining_reward of
        Inl e \<Rightarrow> Inl e
      | Inr r \<Rightarrow> heuristic_targets argpartition s rest r)"

definition astar_heuristic :: "(rat list \<Rightarrow> nat list) \<Rightarrow> state \<Rightarrow> error + rat" where
  "astar_heuristic argpartition s =
     heuristic_targets argpartition s (enumerate 0 (Targets s)) 0"

definition ucs_heuristic :: "state \<Rightarrow> error + rat" where
  "ucs_heuristic s = Inr 0"

section \<open>The search\<close>

record search =
  nodes :: "Node list"
  frontier :: "nat list"
  explored :: "nat list"
  expansions :: nat
  branchFactor :: nat
  duplicate_states :: nat

text \<open>The first component of the tuple that \<^verbatim>\<open>AStar\<close> returns: the steps of
  \<^verbatim>\<open>Node.Solution\<close> (the text joins them with commas) or the text \<^verbatim>\<open>"failed"\<close>.\<close>

datatype solution = Steps "action list" | failed

type_synonym result = "solution \<times> rat option \<times> nat \<times> nat"

datatype outcome = Accept nat search | Continue search

definition node_lt :: "Node list \<Rightarrow> nat \<Rightarrow> nat \<Rightarrow> bool" where
  "node_lt ns a b = Node_lt (ns ! a) (ns ! b)"

text \<open>\<^verbatim>\<open>node in explored\<close>, \<^verbatim>\<open>child in frontier\<close>: some element of the list is equal
  to the node by \<^verbatim>\<open>__eq__\<close>.\<close>

definition node_in :: "Node list \<Rightarrow> Node \<Rightarrow> nat list \<Rightarrow> bool" where
  "node_in ns n ids = list_ex (\<lambda>i. Node_eq n (ns ! i)) ids"

text \<open>\<^verbatim>\<open>np.stack(np.where(state['Opportunities'][:, :, SELECTABLE] == True), axis=1)\<close>:
  the pairs (effector, target) of the cells equal to 1, row by row.\<close>

definition selectable_pairs :: "state \<Rightarrow> action list" where
  "selectable_pairs s =
     concat (map (\<lambda>(e, row). map (\<lambda>(t, opp). (e, t))
                    (filter (\<lambda>(t, opp). SELECTABLE opp = 1) (enumerate 0 row)))
               (enumerate 0 (Opportunities s)))"

text \<open>\<^verbatim>\<open>Node.Solution\<close> follows the parent references.\<close>

partial_function (option) Solution :: "Node list \<Rightarrow> nat \<Rightarrow> action list option" where
  "Solution ns i =
     (case action (ns ! i) of
        None \<Rightarrow> Some []
      | Some a \<Rightarrow>
          (case parent (ns ! i) of
             Some p \<Rightarrow> Solution ns p \<bind> (\<lambda>sol. Some (sol @ [a]))
           | None \<Rightarrow> Some [a]))"

declare Solution.simps [code]

text \<open>
  One pass of the loop over the selectable pairs. The transition function
  \<^verbatim>\<open>env.update_state\<close> belongs to the simulator and is the parameter \<open>update_state\<close>; it
  gets a copy of the state, so it is a function of the action and the state.
\<close>

definition expand_child ::
  "(action \<Rightarrow> state \<Rightarrow> state \<times> rat \<times> bool) \<Rightarrow> (state \<Rightarrow> error + rat) \<Rightarrow> nat \<Rightarrow> action \<Rightarrow>
   search \<Rightarrow> error + search" where
  "expand_child update_state heuristic nid act st =
     (let node = nodes st ! nid;
          (new_state, rew, term) = update_state act (state node);
          gval = g node - rew
      in case heuristic new_state of
        Inl e \<Rightarrow> Inl e
      | Inr h \<Rightarrow>
          (let child = \<lparr>g = gval - h, action = Some act, state = new_state, reward = rew,
                        terminal = term, parent = Some nid\<rparr>;
               cid = length (nodes st);
               st1 = st\<lparr>nodes := nodes st @ [child]\<rparr>
           in if \<not> node_in (nodes st1) child (explored st1) \<and>
                 \<not> node_in (nodes st1) child (frontier st1)
              then Inr (st1\<lparr>frontier := heappush (node_lt (nodes st1)) (frontier st1) cid,
                            branchFactor := branchFactor st1 + 1\<rparr>)
              else Inr (st1\<lparr>duplicate_states := duplicate_states st1 + 1\<rparr>)))"

fun expand ::
  "(action \<Rightarrow> state \<Rightarrow> state \<times> rat \<times> bool) \<Rightarrow> (state \<Rightarrow> error + rat) \<Rightarrow> nat \<Rightarrow> action list \<Rightarrow>
   search \<Rightarrow> error + search" where
  "expand update_state heuristic nid [] st = Inr st"
| "expand update_state heuristic nid (act # acts) st =
     (case expand_child update_state heuristic nid act st of
        Inl e \<Rightarrow> Inl e
      | Inr st' \<Rightarrow> expand update_state heuristic nid acts st')"

text \<open>From \<^verbatim>\<open>explored.append(node)\<close> to the end of the body of the loop.\<close>

definition expand_node ::
  "(action \<Rightarrow> state \<Rightarrow> state \<times> rat \<times> bool) \<Rightarrow> (state \<Rightarrow> error + rat) \<Rightarrow> nat \<Rightarrow>
   search \<Rightarrow> error + outcome" where
  "expand_node update_state heuristic nid st =
     (let st1 = st\<lparr>explored := explored st @ [nid]\<rparr>
      in case expand update_state heuristic nid (selectable_pairs (state (nodes st1 ! nid))) st1 of
        Inl e \<Rightarrow> Inl e
      | Inr st' \<Rightarrow> Inr (Continue st'))"

text \<open>The body of \<^verbatim>\<open>while frontier\<close>, on a frontier that is not empty.\<close>

definition AStar_iteration ::
  "(action \<Rightarrow> state \<Rightarrow> state \<times> rat \<times> bool) \<Rightarrow> (state \<Rightarrow> error + rat) \<Rightarrow>
   search \<Rightarrow> error + outcome" where
  "AStar_iteration update_state heuristic st =
     (let (nid, fr) = heappop (node_lt (nodes st)) (frontier st);
          st1 = st\<lparr>frontier := fr\<rparr>;
          node = nodes st1 ! nid
      in if node_in (nodes st1) node (explored st1) then Inr (Continue st1)
         else
           (let st2 = st1\<lparr>expansions := expansions st1 + 1\<rparr>
            in case parent node of
              Some p \<Rightarrow>
                (let expected = g (nodes st2 ! p) - reward node in
                 if terminal node then
                   (if g node = expected then Inr (Accept nid st2)
                    else
                      (let ns = (nodes st2)[nid := node\<lparr>g := expected\<rparr>]
                       in Inr (Continue (st2\<lparr>nodes := ns,
                              frontier := heappush (node_lt ns) (frontier st2) nid\<rparr>))))
                 else expand_node update_state heuristic nid
                        (st2\<lparr>nodes := (nodes st2)[nid := node\<lparr>g := expected\<rparr>]\<rparr>))
            | None \<Rightarrow> expand_node update_state heuristic nid st2))"

partial_function (option) AStar_loop ::
  "(action \<Rightarrow> state \<Rightarrow> state \<times> rat \<times> bool) \<Rightarrow> (state \<Rightarrow> error + rat) \<Rightarrow>
   search \<Rightarrow> (error + result) option" where
  "AStar_loop update_state heuristic st =
     (if frontier st \<noteq> [] then
        (case AStar_iteration update_state heuristic st of
           Inl e \<Rightarrow> Some (Inl e)
         | Inr (Accept nid st') \<Rightarrow>
             Solution (nodes st') nid \<bind>
               (\<lambda>sol. Some (Inr (Steps sol, Some (g (nodes st' ! nid)), expansions st',
                                  branchFactor st')))
         | Inr (Continue st') \<Rightarrow> AStar_loop update_state heuristic st')
      else Some (Inr (failed, None, expansions st, branchFactor st)))"

declare AStar_loop.simps [code]

text \<open>The statements before the loop: the first node and the empty collections.\<close>

definition AStar_init :: "state \<Rightarrow> search" where
  "AStar_init s =
     (let node = \<lparr>g = sum_list (map VALUE (Targets s)), action = None, state = s, reward = 0,
                  terminal = False, parent = None\<rparr>
      in \<lparr>nodes = [node], frontier = heappush (node_lt [node]) [] 0, explored = [],
          expansions = 0, branchFactor = 0, duplicate_states = 0\<rparr>)"

definition AStar ::
  "(action \<Rightarrow> state \<Rightarrow> state \<times> rat \<times> bool) \<Rightarrow> (state \<Rightarrow> error + rat) \<Rightarrow>
   state \<Rightarrow> (error + result) option" where
  "AStar update_state heuristic s = AStar_loop update_state heuristic (AStar_init s)"

section \<open>The states of a run and their invariants\<close>

text \<open>The search states at the head of the loop \<^verbatim>\<open>while frontier\<close> in a run of
  \<open>AStar\<close> on the state \<open>s\<close>.\<close>

inductive reach ::
  "(action \<Rightarrow> state \<Rightarrow> state \<times> rat \<times> bool) \<Rightarrow> (state \<Rightarrow> error + rat) \<Rightarrow> state \<Rightarrow> search \<Rightarrow> bool"
  for update_state heuristic s where
  reach_init: "reach update_state heuristic s (AStar_init s)"
| reach_step: "reach update_state heuristic s st \<Longrightarrow> frontier st \<noteq> [] \<Longrightarrow>
     AStar_iteration update_state heuristic st = Inr (Continue st') \<Longrightarrow>
     reach update_state heuristic s st'"

text \<open>
  The shape of the store and of the two collections: a parent was created before its
  child and only the first node has none; the frontier and the closed set hold nodes of the
  store, no node twice, and no two of their nodes have the same state; the first node and
  the nodes of the closed set are not terminal.
\<close>

definition search_inv :: "search \<Rightarrow> bool" where
  "search_inv st \<longleftrightarrow>
     nodes st \<noteq> [] \<and> \<not> terminal (nodes st ! 0) \<and>
     (\<forall>i<length (nodes st). case parent (nodes st ! i) of None \<Rightarrow> i = 0 | Some p \<Rightarrow> p < i) \<and>
     (\<forall>i\<in>set (frontier st) \<union> set (explored st). i < length (nodes st)) \<and>
     distinct (frontier st) \<and> distinct (explored st) \<and>
     set (frontier st) \<inter> set (explored st) = {} \<and>
     inj_on (\<lambda>i. state (nodes st ! i)) (set (frontier st) \<union> set (explored st)) \<and>
     (\<forall>i\<in>set (explored st). \<not> terminal (nodes st ! i))"



text \<open>The sum of all target values of a state.\<close>

definition total_value :: "state \<Rightarrow> rat" where
  "total_value s = sum_list (map VALUE (Targets s))"

section \<open>A transition function for the examples\<close>

text \<open>
  The examples below need some transition function. This one engages target \<open>t\<close> with
  effector \<open>e\<close>: the reward is the value of the target times the probability of success,
  the value of the target goes down by the reward and its selected fraction up by one half;
  the effector is used up (none of its opportunities stays selectable), and so is a target
  selected twice. The result is terminal when no opportunity is selectable any more.
\<close>

definition used_up :: "state \<Rightarrow> nat \<Rightarrow> nat \<Rightarrow> opportunity list list" where
  "used_up s e t =
     map (\<lambda>(e', row). map (\<lambda>(t', opp).
            if e' = e \<or> (t' = t \<and> SELECTED (Targets s ! t) = 1) then opp\<lparr>SELECTABLE := 0\<rparr>
            else opp) (enumerate 0 row))
       (enumerate 0 (Opportunities s))"

definition single_shot :: "action \<Rightarrow> state \<Rightarrow> state \<times> rat \<times> bool" where
  "single_shot act s =
     (let (e, t) = act;
          tgt = Targets s ! t;
          rew = VALUE tgt * PSUCCESS (Opportunities s ! e ! t);
          s1 = s\<lparr>Targets := (Targets s)[t := tgt\<lparr>VALUE := VALUE tgt - rew,
                                                    SELECTED := SELECTED tgt + 1 / 2\<rparr>]\<rparr>;
          s2 = s1\<lparr>Opportunities := used_up s1 e t\<rparr>
      in (s2, rew, selectable_pairs s2 = []))"

text \<open>An argpartition: the indices in ascending order of the elements, equal elements in
  the order of their indices (a stable sort).\<close>

definition argsort :: "rat list \<Rightarrow> nat list" where
  "argsort a = sort_key (\<lambda>i. a ! i) [0..<length a]"

text \<open>One effector, one target of value 10, one selectable opportunity of probability 0.9.\<close>

definition problem_1x1 :: state where
  "problem_1x1 =
     \<lparr>Effectors = [[]],
      Targets = [\<lparr>VALUE = 10, SELECTED = 0, target_rest = []\<rparr>],
      Opportunities = [[\<lparr>SELECTABLE = 1, PSUCCESS = 9 / 10, opportunity_rest = []\<rparr>]]\<rparr>"

text \<open>Two effectors, two targets of values 10 and 20, effector 0 against target 0 with
  probability 0.8 and effector 1 against target 1 with probability 0.5.\<close>

definition problem_2x2 :: state where
  "problem_2x2 =
     \<lparr>Effectors = [[], []],
      Targets = [\<lparr>VALUE = 10, SELECTED = 0, target_rest = []\<rparr>,
                 \<lparr>VALUE = 20, SELECTED = 0, target_rest = []\<rparr>],
      Opportunities =
        [[\<lparr>SELECTABLE = 1, PSUCCESS = 8 / 10, opportunity_rest = []\<rparr>,
          \<lparr>SELECTABLE = 0, PSUCCESS = 0, opportunity_rest = []\<rparr>],
         [\<lparr>SELECTABLE = 0, PSUCCESS = 0, opportunity_rest = []\<rparr>,
          \<lparr>SELECTABLE = 1, PSUCCESS = 5 / 10, opportunity_rest = []\<rparr>]]\<rparr>"

text \<open>The same with no selectable opportunity.\<close>

definition problem_none :: state where
  "problem_none =
     \<lparr>Effectors = [[]],
      Targets = [\<lparr>VALUE = 10, SELECTED = 0, target_rest = []\<rparr>],
      Opportunities = [[\<lparr>SELECTABLE = 0, PSUCCESS = 9 / 10, opportunity_rest = []\<rparr>]]\<rparr>"

text \<open>The search on \<open>problem_1x1\<close> after the first pass of the loop: the first node is
  closed and its only child, which is terminal, waits in the frontier with priority \<open>gv\<close>.\<close>

definition state_after_1x1 :: state where
  "state_after_1x1 =
     \<lparr>Effectors = [[]],
      Targets = [\<lparr>VALUE = 1, SELECTED = 1 / 2, target_rest = []\<rparr>],
      Opportunities = [[\<lparr>SELECTABLE = 0, PSUCCESS = 9 / 10, opportunity_rest = []\<rparr>]]\<rparr>"

definition after_root_1x1 :: "rat \<Rightarrow> search" where
  "after_root_1x1 gv =
     \<lparr>nodes = [\<lparr>g = 10, action = None, state = problem_1x1, reward = 0, terminal = False,
                 parent = None\<rparr>,
               \<lparr>g = gv, action = Some (0, 0), state = state_after_1x1, reward = 9,
                 terminal = True, parent = Some 0\<rparr>],
      frontier = [1], explored = [0], expansions = 1, branchFactor = 1, duplicate_states = 0\<rparr>"

text \<open>A heuristic that always answers 1.\<close>

definition unit_heuristic :: "state \<Rightarrow> error + rat" where
  "unit_heuristic s = Inr 1"


section \<open>The heuristic as the specification words it\<close>

text \<open>
  What the documentation of \<^verbatim>\<open>np.argpartition\<close> promises for \<^verbatim>\<open>kth = -1\<close> on an array
  that is not empty: the result is a permutation of the indices, and the element at its last
  index is not smaller than any other element.
\<close>

definition argpartition_ok :: "(rat list \<Rightarrow> nat list) \<Rightarrow> bool" where
  "argpartition_ok argpartition \<longleftrightarrow>
     (\<forall>a. a \<noteq> [] \<longrightarrow>
        distinct (argpartition a) \<and> set (argpartition a) = {0..<length a} \<and>
        (\<forall>j<length a. a ! j \<le> a ! last (argpartition a)))"

text \<open>
  The states of the data model: the opportunities form a table with one cell for every
  effector and target; a selected fraction is 0, one half or 1 (it grows in steps of one
  half); the selectable column holds the truth values 0 and 1.
\<close>

definition wf_state :: "state \<Rightarrow> bool" where
  "wf_state s \<longleftrightarrow>
     list_all (\<lambda>row. length row = length (Targets s)) (Opportunities s) \<and>
     list_all (\<lambda>tgt. SELECTED tgt = 0 \<or> SELECTED tgt = 1 / 2 \<or> SELECTED tgt = 1) (Targets s) \<and>
     list_all (list_all (\<lambda>opp. SELECTABLE opp = 0 \<or> SELECTABLE opp = 1)) (Opportunities s)"

text \<open>The number of opportunities against target \<open>i\<close> that are selectable now.\<close>

definition selectable_count :: "state \<Rightarrow> nat \<Rightarrow> nat" where
  "selectable_count s i = length (filter (\<lambda>row. SELECTABLE (row ! i) = 1) (Opportunities s))"

definition remainingSlots :: "state \<Rightarrow> nat \<Rightarrow> rat" where
  "remainingSlots s i =
     min (2 * (1 - SELECTED (Targets s ! i))) (2 * of_nat (selectable_count s i))"

text \<open>The maximal probability of success among the opportunities against target \<open>i\<close>.\<close>

definition best_probability :: "state \<Rightarrow> nat \<Rightarrow> rat" where
  "best_probability s i = Max (set (map (\<lambda>row. PSUCCESS (row ! i)) (Opportunities s)))"

text \<open>\<open>n\<close> successive engagements: each adds the running value times the probability and
  takes that amount from the running value.\<close>

fun engagements :: "nat \<Rightarrow> rat \<Rightarrow> rat \<Rightarrow> rat" where
  "engagements 0 runningValue p = 0"
| "engagements (Suc n) runningValue p =
     runningValue * p + engagements n (runningValue - runningValue * p) p"

definition target_contribution :: "state \<Rightarrow> nat \<Rightarrow> rat" where
  "target_contribution s i =
     (if SELECTED (Targets s ! i) = 1 then 0
      else if remainingSlots s i = 0 then 0
      else engagements (nat \<lfloor>remainingSlots s i\<rfloor>) (VALUE (Targets s ! i)) (best_probability s i))"

definition heuristic_spec :: "state \<Rightarrow> rat" where
  "heuristic_spec s = sum_list (map (target_contribution s) [0..<length (Targets s)])"

text \<open>Two effectors with the same probability of success against one target.\<close>

definition problem_tie :: state where
  "problem_tie =
     \<lparr>Effectors = [[], []],
      Targets = [\<lparr>VALUE = 10, SELECTED = 0, target_rest = []\<rparr>],
      Opportunities =
        [[\<lparr>SELECTABLE = 1, PSUCCESS = 1 / 2, opportunity_rest = []\<rparr>],
         [\<lparr>SELECTABLE = 1, PSUCCESS = 1 / 2, opportunity_rest = []\<rparr>]]\<rparr>"

text \<open>Another argpartition: the indices in ascending order of the elements, equal elements
  in the opposite order of their indices.\<close>

definition argsort_rev :: "rat list \<Rightarrow> nat list" where
  "argsort_rev a = sort_key (\<lambda>i. a ! i) (rev [0..<length a])"

section \<open>The batch loops of dataset_generator.py\<close>

text \<open>
  What happens while the body of the loop works on problem \<open>i\<close> is given by the
  environment: either the body runs to its end and has built the row of the problem, or the
  user interrupts it; then \<^verbatim>\<open>input("Press Enter to attempt again, or ctrl+c to quit.")\<close>
  waits, and the user presses Enter (the call returns) or interrupts again (the
  \<^verbatim>\<open>KeyboardInterrupt\<close> leaves the handler and the function). A CSV file is the list of its
  rows.
\<close>

datatype response = Enter | CtrlC

datatype 'row attempt = Completes 'row | KeyboardInterrupt response

datatype status = Returned | Raised

datatype batch_error = AssertionError

text \<open>\<^verbatim>\<open>solver\<close>: the loop over the problems. A completed problem appends its row to the
  file (\<^verbatim>\<open>open(csvfilename, 'a')\<close>); after an interrupt and Enter the loop goes on with the
  next index.\<close>

fun solver_loop :: "(nat \<Rightarrow> 'row attempt) \<Rightarrow> nat list \<Rightarrow> 'row list \<Rightarrow> 'row list \<times> status" where
  "solver_loop attempt [] file = (file, Returned)"
| "solver_loop attempt (i # rest) file =
     (case attempt i of
        Completes row \<Rightarrow> solver_loop attempt rest (file @ [row])
      | KeyboardInterrupt Enter \<Rightarrow> solver_loop attempt rest file
      | KeyboardInterrupt CtrlC \<Rightarrow> (file, Raised))"

text \<open>\<^verbatim>\<open>solver\<close>: the assertion on the selected solvers, the file opened with \<^verbatim>\<open>'w'\<close> for
  the header row, then the loop over \<^verbatim>\<open>range(start_idx, start_idx+quantity)\<close>. The result is
  the file at the end and how the function ended.\<close>

definition solver ::
  "nat \<Rightarrow> nat \<Rightarrow> bool \<Rightarrow> bool \<Rightarrow> bool \<Rightarrow> 'row \<Rightarrow> (nat \<Rightarrow> 'row attempt) \<Rightarrow>
   batch_error + 'row list \<times> status" where
  "solver quantity start_idx Random Greedy AStar_flag header attempt =
     (if \<not> (Random \<or> Greedy \<or> AStar_flag) then Inl AssertionError
      else Inr (solver_loop attempt [start_idx..<start_idx + quantity] [header]))"

text \<open>\<^verbatim>\<open>generate_dataset\<close>: the loop collects the rows in the list \<^verbatim>\<open>csv_content\<close>.\<close>

fun generate_loop ::
  "(nat \<Rightarrow> 'row attempt) \<Rightarrow> bool \<Rightarrow> nat list \<Rightarrow> 'row list \<Rightarrow> 'row list \<times> status" where
  "generate_loop attempt solve_problems [] csv_content = (csv_content, Returned)"
| "generate_loop attempt solve_problems (i # rest) csv_content =
     (case attempt i of
        Completes row \<Rightarrow>
          generate_loop attempt solve_problems rest
            (if solve_problems then csv_content @ [row] else csv_content)
      | KeyboardInterrupt Enter \<Rightarrow> generate_loop attempt solve_problems rest csv_content
      | KeyboardInterrupt CtrlC \<Rightarrow> (csv_content, Raised))"

text \<open>\<^verbatim>\<open>generate_dataset\<close>: the file is written after the loop, when the problems were
  solved; an interrupt that leaves the loop leaves the function before that. The result is
  the file written (\<open>None\<close>: no file) and how the function ended.\<close>

definition generate_dataset ::
  "nat \<Rightarrow> bool \<Rightarrow> (nat \<Rightarrow> 'row attempt) \<Rightarrow> 'row list option \<times> status" where
  "generate_dataset quantity solve_problems attempt =
     (case generate_loop attempt solve_problems [0..<quantity] [] of
        (csv_content, Returned) \<Rightarrow> (if solve_problems then Some csv_content else None, Returned)
      | (csv_content, Raised) \<Rightarrow> (None, Raised))"

text \<open>Two runs of a batch of two problems: in the first the user interrupts problem 0,
  presses Enter, and problem 1 completes; in the second problem 0 completes and the user
  interrupts problem 1 and quits.\<close>

definition interrupt_then_enter :: "nat \<Rightarrow> string attempt" where
  "interrupt_then_enter i = (if i = 0 then KeyboardInterrupt Enter else Completes ''row 1'')"

definition complete_then_quit :: "nat \<Rightarrow> string attempt" where
  "complete_then_quit i = (if i = 0 then Completes ''row 0'' else KeyboardInterrupt CtrlC)"

section \<open>Proofs\<close>

lemma mset_swap_update:
  assumes "i < length xs" "j < length xs"
  shows "mset (xs[i := xs ! j, j := v]) = mset (xs[i := v])"
proof (cases "i = j")
  case True then show ?thesis by simp
next
  case False
  then show ?thesis using assms
    by (simp add: mset_update nth_list_update)
qed

lemma length_siftdown_loop [simp]:
  "length (siftdown_loop lt heap startpos pos newitem) = length heap"
  by (induction lt heap startpos pos newitem rule: siftdown_loop.induct)
     (subst siftdown_loop.simps, simp add: Let_def)

lemma mset_siftdown_loop:
  "pos < length heap \<Longrightarrow>
   mset (siftdown_loop lt heap startpos pos newitem) = mset (heap[pos := newitem])"
proof (induction lt heap startpos pos newitem rule: siftdown_loop.induct)
  case (1 lt heap startpos pos newitem)
  show ?case
  proof (cases "pos > startpos \<and> lt newitem (heap ! ((pos - 1) div 2))")
    case True
    then have pp: "(pos - 1) div 2 < length heap" using "1.prems" by simp
    have "mset (siftdown_loop lt heap startpos pos newitem) =
          mset (siftdown_loop lt (heap[pos := heap ! ((pos - 1) div 2)]) startpos ((pos - 1) div 2) newitem)"
      using True by (subst siftdown_loop.simps) (simp add: Let_def)
    also have "\<dots> = mset (heap[pos := heap ! ((pos - 1) div 2), (pos - 1) div 2 := newitem])"
      using True pp "1.IH"[OF _ refl refl] by simp
    also have "\<dots> = mset (heap[pos := newitem])"
      using mset_swap_update[OF "1.prems" pp] .
    finally show ?thesis .
  next
    case False
    then show ?thesis by (subst siftdown_loop.simps) (auto simp add: Let_def)
  qed
qed

lemma siftup_loop_props:
  "siftup_loop lt heap pos = (heap', pos') \<Longrightarrow> pos < length heap \<Longrightarrow>
   length heap' = length heap \<and> pos' < length heap \<and> mset (heap'[pos' := x]) = mset (heap[pos := x])"
proof (induction lt heap pos arbitrary: heap' pos' rule: siftup_loop.induct)
  case (1 lt heap pos)
  show ?case
  proof (cases "2 * pos + 1 < length heap")
    case False
    then show ?thesis using "1.prems" by (subst (asm) siftup_loop.simps) (simp add: Let_def)
  next
    case True
    define c where "c = (if 2 * pos + 1 + 1 < length heap \<and> \<not> lt (heap ! (2 * pos + 1)) (heap ! (2 * pos + 1 + 1))
                          then 2 * pos + 1 + 1 else 2 * pos + 1)"
    have c: "c < length heap" using True by (simp add: c_def)
    have rec: "siftup_loop lt (heap[pos := heap ! c]) c = (heap', pos')"
      using "1.prems"(1) True by (subst (asm) siftup_loop.simps) (auto simp add: Let_def c_def split: if_splits)
    have "length heap' = length (heap[pos := heap ! c]) \<and> pos' < length (heap[pos := heap ! c]) \<and>
          mset (heap'[pos' := x]) = mset (heap[pos := heap ! c, c := x])"
      using "1.IH"[OF refl refl True refl refl, folded c_def, OF rec] c by simp
    then show ?thesis using mset_swap_update[OF "1.prems"(2) c] by simp
  qed
qed

lemma mset_heappush: "mset (heappush lt heap item) = add_mset item (mset heap)"
  by (simp add: heappush_def siftdown_def mset_siftdown_loop)

lemma mset_siftup:
  assumes "pos < length heap"
  shows "mset (siftup lt heap pos) = mset heap"
proof -
  obtain heap' pos' where sl: "siftup_loop lt heap pos = (heap', pos')" by (cases "siftup_loop lt heap pos")
  note p = siftup_loop_props[OF sl assms, of "heap ! pos"]
  have "mset (siftup lt heap pos) = mset (heap'[pos' := heap ! pos])"
    using p by (simp add: siftup_def sl siftdown_def mset_siftdown_loop Let_def)
  then show ?thesis using p by simp
qed

lemma mset_heappop:
  assumes "heap \<noteq> []"
  shows "add_mset (fst (heappop lt heap)) (mset (snd (heappop lt heap))) = mset heap"
proof (cases "butlast heap = []")
  case True
  then have "heap = [last heap]" using assms by (metis append_butlast_last_id append_Nil)
  then show ?thesis using True by (simp add: heappop_def Let_def)
next
  case False
  have h: "heap = butlast heap @ [last heap]" using assms by simp
  have bl: "0 < length (butlast heap)" using False by (simp del: length_butlast)
  then have "0 < length ((butlast heap)[0 := last heap])" by (simp del: length_butlast)
  then have "mset (snd (heappop lt heap)) = mset ((butlast heap)[0 := last heap])"
    using False by (simp add: heappop_def Let_def mset_siftup del: length_list_update)
  also have "\<dots> = add_mset (last heap) (mset (butlast heap) - {#butlast heap ! 0#})"
    by (rule mset_update[OF bl])
  finally have "add_mset (fst (heappop lt heap)) (mset (snd (heappop lt heap))) =
      add_mset (last heap) (mset (butlast heap))"
    using False nth_mem[OF bl] by (simp add: heappop_def Let_def)
  also have "\<dots> = mset heap" by (subst (2) h) simp
  finally show ?thesis .
qed

lemma set_heappush: "set (heappush lt heap item) = insert item (set heap)"
  using mset_heappush[of lt heap item] by (metis set_mset_add_mset_insert set_mset_mset)

lemma distinct_heappush: "distinct (heappush lt heap item) \<longleftrightarrow> item \<notin> set heap \<and> distinct heap"
proof -
  have "mset (heappush lt heap item) = mset (item # heap)" by (simp add: mset_heappush)
  then have "distinct (heappush lt heap item) \<longleftrightarrow> distinct (item # heap)"
    by (rule mset_eq_imp_distinct_iff)
  then show ?thesis by simp
qed

lemma heappop_set:
  assumes "heap \<noteq> []" "heappop lt heap = (x, heap')"
  shows "set heap = insert x (set heap')"
    and "distinct heap \<Longrightarrow> x \<notin> set heap' \<and> distinct heap'"
proof -
  have m: "mset (x # heap') = mset heap" using mset_heappop[OF assms(1), of lt] assms(2) by simp
  show "set heap = insert x (set heap')" using mset_eq_setD[OF m] by simp
  show "distinct heap \<Longrightarrow> x \<notin> set heap' \<and> distinct heap'"
    using mset_eq_imp_distinct_iff[OF m] by simp
qed

lemma Node_eq_iff: "Node_eq a b \<longleftrightarrow> state a = state b"
  by (cases "state a"; cases "state b") (auto simp: Node_eq_def)

lemma node_in_iff: "node_in ns n ids \<longleftrightarrow> (\<exists>i\<in>set ids. state (ns ! i) = state n)"
  unfolding node_in_def list_ex_iff Node_eq_iff by (rule bex_cong[OF refl]) (rule eq_commute)


lemma nth_g_update_field:
  assumes "f ((ns ! i)\<lparr>g := x\<rparr>) = f (ns ! i)"
  shows "f (ns[i := (ns ! i)\<lparr>g := x\<rparr>] ! j) = f (ns ! j)"
proof (cases "i < length ns \<and> i = j")
  case True
  then show ?thesis using assms by simp
next
  case False
  then have "ns[i := (ns ! i)\<lparr>g := x\<rparr>] ! j = ns ! j"
    by (cases "i < length ns") (auto simp: list_update_beyond)
  then show ?thesis by simp
qed

lemma nth_g_update [simp]:
  "parent (ns[i := (ns ! i)\<lparr>g := x\<rparr>] ! j) = parent (ns ! j)"
  "state (ns[i := (ns ! i)\<lparr>g := x\<rparr>] ! j) = state (ns ! j)"
  "terminal (ns[i := (ns ! i)\<lparr>g := x\<rparr>] ! j) = terminal (ns ! j)"
  "reward (ns[i := (ns ! i)\<lparr>g := x\<rparr>] ! j) = reward (ns ! j)"
  "action (ns[i := (ns ! i)\<lparr>g := x\<rparr>] ! j) = action (ns ! j)"
  by (rule nth_g_update_field, simp)+

lemma search_inv_g_update:
  "search_inv st \<Longrightarrow> search_inv (st\<lparr>nodes := (nodes st)[i := (nodes st ! i)\<lparr>g := x\<rparr>]\<rparr>)"
  by (simp add: search_inv_def)

lemma search_inv_init: "search_inv (AStar_init s)"
  by (simp add: search_inv_def AStar_init_def Let_def set_heappush distinct_heappush)

lemma heappush_Nil: "heappush lt [] x = [x]"
  by (simp add: heappush_def siftdown_def siftdown_loop.simps)

lemma heappop_single: "heappop lt [x] = (x, [])"
  by (simp add: heappop_def)

lemma AStar_init_simps:
  "nodes (AStar_init s) = [\<lparr>g = sum_list (map VALUE (Targets s)), action = None, state = s,
      reward = 0, terminal = False, parent = None\<rparr>]"
  "frontier (AStar_init s) = [0]" "explored (AStar_init s) = []"
  "expansions (AStar_init s) = 0" "branchFactor (AStar_init s) = 0"
  "duplicate_states (AStar_init s) = 0"
  by (simp_all add: AStar_init_def Let_def heappush_Nil)

lemma AStar_iteration_root_no_opportunity:
  assumes "selectable_pairs s = []"
  shows "AStar_iteration update_state heuristic (AStar_init s) =
         Inr (Continue ((AStar_init s)\<lparr>frontier := [], expansions := 1, explored := [0]\<rparr>))"
  using assms
  by (simp add: AStar_iteration_def AStar_init_simps heappop_single node_in_def expand_node_def Let_def)

text \<open>
  Claim C3, as the code has it: on every initial state with no selectable opportunity the
  search pops the first node, expands it to nothing and leaves the loop with an empty
  frontier, so \<open>AStar\<close> returns the failure result \<open>(failed, None, 1, 0)\<close>; it does not
  return an empty action sequence with the total value as priority.
\<close>

theorem AStar_no_opportunity_fails:
  assumes "selectable_pairs s = []"
  shows "AStar update_state heuristic s = Some (Inr (failed, None, 1, 0))"
proof -
  let ?st = "(AStar_init s)\<lparr>frontier := [], expansions := 1, explored := [0]\<rparr>"
  have "AStar update_state heuristic s = AStar_loop update_state heuristic ?st"
    unfolding AStar_def
    by (subst AStar_loop.simps)
       (simp add: AStar_iteration_root_no_opportunity[OF assms] AStar_init_simps)
  also have "\<dots> = Some (Inr (failed, None, 1, 0))"
    by (subst AStar_loop.simps) (simp add: AStar_init_simps)
  finally show ?thesis .
qed

lemma problem_none_no_pairs: "selectable_pairs problem_none = []"
  by (simp add: selectable_pairs_def problem_none_def enumerate_eq_zip)

theorem AStar_no_opportunity_fails_witness:
  "selectable_pairs problem_none = [] \<and>
   AStar single_shot (astar_heuristic argsort) problem_none = Some (Inr (failed, None, 1, 0))"
  using AStar_no_opportunity_fails[OF problem_none_no_pairs] problem_none_no_pairs by simp

text \<open>
  Claim C3 as stated fails: with one target of value 10 and no selectable opportunity the
  result is not the empty sequence with priority 10 but the failure result.
\<close>

theorem AStar_no_opportunity_counterexample:
  "selectable_pairs problem_none = [] \<and> total_value problem_none = 10 \<and>
   AStar single_shot ucs_heuristic problem_none \<noteq> Some (Inr (Steps [], Some 10, 1, 0)) \<and>
   AStar single_shot ucs_heuristic problem_none = Some (Inr (failed, None, 1, 0))"
  by code_simp

text \<open>
  Claim C8: when the frontier is exhausted the loop ends and \<open>AStar\<close> returns a result, not
  an error: the text \<open>failed\<close> in place of the action sequence, no priority, and the
  counters of expansions and of pushed children.
\<close>

theorem AStar_loop_exhausted:
  assumes "frontier st = []"
  shows "AStar_loop update_state heuristic st =
         Some (Inr (failed, None, expansions st, branchFactor st))"
  using assms by (subst AStar_loop.simps) simp

theorem AStar_loop_exhausted_witness:
  "frontier ((AStar_init problem_none)\<lparr>frontier := [], expansions := 1, explored := [0]\<rparr>) = [] \<and>
   AStar_loop single_shot ucs_heuristic
     ((AStar_init problem_none)\<lparr>frontier := [], expansions := 1, explored := [0]\<rparr>) =
   Some (Inr (failed, None, 1, 0))"
  using AStar_loop_exhausted[of "(AStar_init problem_none)\<lparr>frontier := [], expansions := 1, explored := [0]\<rparr>"
          single_shot ucs_heuristic]
  by (simp add: AStar_init_simps)

lemma search_inv_counters [simp]:
  "search_inv (st\<lparr>expansions := e\<rparr>) = search_inv st"
  "search_inv (st\<lparr>branchFactor := b\<rparr>) = search_inv st"
  "search_inv (st\<lparr>duplicate_states := d\<rparr>) = search_inv st"
  by (simp_all add: search_inv_def)

lemma search_invI:
  assumes "nodes st \<noteq> []" "\<not> terminal (nodes st ! 0)"
    "\<And>i. i < length (nodes st) \<Longrightarrow> case parent (nodes st ! i) of None \<Rightarrow> i = 0 | Some p \<Rightarrow> p < i"
    "\<And>i. i \<in> set (frontier st) \<union> set (explored st) \<Longrightarrow> i < length (nodes st)"
    "distinct (frontier st)" "distinct (explored st)"
    "set (frontier st) \<inter> set (explored st) = {}"
    "inj_on (\<lambda>i. state (nodes st ! i)) (set (frontier st) \<union> set (explored st))"
    "\<And>i. i \<in> set (explored st) \<Longrightarrow> \<not> terminal (nodes st ! i)"
  shows "search_inv st"
  unfolding search_inv_def using assms by blast

lemma search_invD:
  assumes "search_inv st"
  shows "nodes st \<noteq> []" "\<not> terminal (nodes st ! 0)"
    "\<And>i. i < length (nodes st) \<Longrightarrow> case parent (nodes st ! i) of None \<Rightarrow> i = 0 | Some p \<Rightarrow> p < i"
    "\<And>i. i \<in> set (frontier st) \<union> set (explored st) \<Longrightarrow> i < length (nodes st)"
    "distinct (frontier st)" "distinct (explored st)"
    "set (frontier st) \<inter> set (explored st) = {}"
    "inj_on (\<lambda>i. state (nodes st ! i)) (set (frontier st) \<union> set (explored st))"
    "\<And>i. i \<in> set (explored st) \<Longrightarrow> \<not> terminal (nodes st ! i)"
  using assms unfolding search_inv_def by blast+

lemma inj_on_eq_on:
  assumes "inj_on f A" "\<And>a. a \<in> A \<Longrightarrow> h a = f a"
  shows "inj_on h A"
  using assms unfolding inj_on_def by metis


lemma search_inv_append:
  assumes inv: "search_inv st" and pc: "parent c = Some p" and pl: "p < length (nodes st)"
  shows "search_inv (st\<lparr>nodes := nodes st @ [c]\<rparr>)"
proof (rule search_invI)
  note D = search_invD[OF inv]
  have ne: "0 < length (nodes st)" using D(1) by simp
  have old: "\<And>i. i < length (nodes st) \<Longrightarrow> (nodes st @ [c]) ! i = nodes st ! i"
    by (simp add: nth_append)
  have mem: "\<And>i. i \<in> set (frontier st) \<union> set (explored st) \<Longrightarrow>
      (nodes st @ [c]) ! i = nodes st ! i"
    using D(4) old by blast
  show "nodes (st\<lparr>nodes := nodes st @ [c]\<rparr>) \<noteq> []" by simp
  show "\<not> terminal (nodes (st\<lparr>nodes := nodes st @ [c]\<rparr>) ! 0)"
    using D(2) old[OF ne] by simp
  show "case parent (nodes (st\<lparr>nodes := nodes st @ [c]\<rparr>) ! i) of None \<Rightarrow> i = 0 | Some q \<Rightarrow> q < i"
    if "i < length (nodes (st\<lparr>nodes := nodes st @ [c]\<rparr>))" for i
  proof (cases "i < length (nodes st)")
    case True then show ?thesis using D(3)[OF True] old[OF True] by simp
  next
    case False
    then have "i = length (nodes st)" using that by simp
    then show ?thesis using pc pl by simp
  qed
  show "i < length (nodes (st\<lparr>nodes := nodes st @ [c]\<rparr>))"
    if "i \<in> set (frontier (st\<lparr>nodes := nodes st @ [c]\<rparr>)) \<union> set (explored (st\<lparr>nodes := nodes st @ [c]\<rparr>))" for i
    using D(4)[of i] that by simp
  show "distinct (frontier (st\<lparr>nodes := nodes st @ [c]\<rparr>))" using D(5) by simp
  show "distinct (explored (st\<lparr>nodes := nodes st @ [c]\<rparr>))" using D(6) by simp
  show "set (frontier (st\<lparr>nodes := nodes st @ [c]\<rparr>)) \<inter> set (explored (st\<lparr>nodes := nodes st @ [c]\<rparr>)) = {}"
    using D(7) by simp
  show "inj_on (\<lambda>i. state (nodes (st\<lparr>nodes := nodes st @ [c]\<rparr>) ! i))
     (set (frontier (st\<lparr>nodes := nodes st @ [c]\<rparr>)) \<union> set (explored (st\<lparr>nodes := nodes st @ [c]\<rparr>)))"
    using inj_on_eq_on[OF D(8), of "\<lambda>i. state ((nodes st @ [c]) ! i)"] mem by simp
  show "\<not> terminal (nodes (st\<lparr>nodes := nodes st @ [c]\<rparr>) ! i)"
    if "i \<in> set (explored (st\<lparr>nodes := nodes st @ [c]\<rparr>))" for i
    using D(9)[of i] mem[of i] that by simp
qed


lemma search_inv_push:
  assumes inv: "search_inv st" and cl: "c < length (nodes st)"
    and cn: "c \<notin> set (frontier st) \<union> set (explored st)"
    and new: "\<And>i. i \<in> set (frontier st) \<union> set (explored st) \<Longrightarrow>
                state (nodes st ! i) \<noteq> state (nodes st ! c)"
  shows "search_inv (st\<lparr>frontier := heappush lt (frontier st) c\<rparr>)"
proof (rule search_invI)
  note D = search_invD[OF inv]
  let ?st = "st\<lparr>frontier := heappush lt (frontier st) c\<rparr>"
  have fr: "set (frontier ?st) = insert c (set (frontier st))" by (simp add: set_heappush)
  show "nodes ?st \<noteq> []" using D(1) by simp
  show "\<not> terminal (nodes ?st ! 0)" using D(2) by simp
  show "case parent (nodes ?st ! i) of None \<Rightarrow> i = 0 | Some q \<Rightarrow> q < i"
    if "i < length (nodes ?st)" for i using D(3)[of i] that by simp
  show "i < length (nodes ?st)" if "i \<in> set (frontier ?st) \<union> set (explored ?st)" for i
    using D(4)[of i] that cl unfolding fr by auto
  show "distinct (frontier ?st)" using D(5) cn by (simp add: distinct_heappush)
  show "distinct (explored ?st)" using D(6) by simp
  show "set (frontier ?st) \<inter> set (explored ?st) = {}" using D(7) cn unfolding fr by auto
  have img: "state (nodes st ! c) \<notin>
      (\<lambda>i. state (nodes st ! i)) ` ((set (frontier st) \<union> set (explored st)) - {c})"
  proof
    assume "state (nodes st ! c) \<in>
      (\<lambda>i. state (nodes st ! i)) ` ((set (frontier st) \<union> set (explored st)) - {c})"
    then obtain i where i: "i \<in> set (frontier st) \<union> set (explored st)"
      and e: "state (nodes st ! c) = state (nodes st ! i)" by blast
    from new[OF i] e show False by metis
  qed
  have "inj_on (\<lambda>i. state (nodes st ! i)) (insert c (set (frontier st) \<union> set (explored st)))"
    using D(8) img by (subst inj_on_insert) blast
  then show "inj_on (\<lambda>i. state (nodes ?st ! i)) (set (frontier ?st) \<union> set (explored ?st))"
    unfolding fr by simp
  show "\<not> terminal (nodes ?st ! i)" if "i \<in> set (explored ?st)" for i
    using D(9)[of i] that by simp
qed

lemma search_inv_close:
  assumes inv: "search_inv st" and fr: "set (frontier st) = insert n (set fr)"
    and nn: "n \<notin> set fr" and dfr: "distinct fr" and nt: "\<not> terminal (nodes st ! n)"
  shows "search_inv (st\<lparr>frontier := fr, explored := explored st @ [n]\<rparr>)"
proof (rule search_invI)
  note D = search_invD[OF inv]
  let ?st = "st\<lparr>frontier := fr, explored := explored st @ [n]\<rparr>"
  have u: "set (frontier ?st) \<union> set (explored ?st) = set (frontier st) \<union> set (explored st)"
    using fr by auto
  have ne: "n \<notin> set (explored st)" using D(7) fr by auto
  show "nodes ?st \<noteq> []" using D(1) by simp
  show "\<not> terminal (nodes ?st ! 0)" using D(2) by simp
  show "case parent (nodes ?st ! i) of None \<Rightarrow> i = 0 | Some q \<Rightarrow> q < i"
    if "i < length (nodes ?st)" for i using D(3)[of i] that by simp
  show "i < length (nodes ?st)" if "i \<in> set (frontier ?st) \<union> set (explored ?st)" for i
    using D(4)[of i] that unfolding u by simp
  show "distinct (frontier ?st)" using dfr by simp
  show "distinct (explored ?st)" using D(6) ne by simp
  show "set (frontier ?st) \<inter> set (explored ?st) = {}" using D(7) fr nn by auto
  show "inj_on (\<lambda>i. state (nodes ?st ! i)) (set (frontier ?st) \<union> set (explored ?st))"
    unfolding u using D(8) by simp
  show "\<not> terminal (nodes ?st ! i)" if "i \<in> set (explored ?st)" for i
    using D(9)[of i] nt that by auto
qed

lemma search_inv_pop:
  assumes inv: "search_inv st" and fr: "set (frontier st) = insert n (set fr)"
    and nn: "n \<notin> set fr" and dfr: "distinct fr"
  shows "search_inv (st\<lparr>frontier := heappush lt fr n\<rparr>)"
proof (rule search_invI)
  note D = search_invD[OF inv]
  let ?st = "st\<lparr>frontier := heappush lt fr n\<rparr>"
  have f: "set (frontier ?st) = set (frontier st)" using fr by (simp add: set_heappush)
  show "nodes ?st \<noteq> []" using D(1) by simp
  show "\<not> terminal (nodes ?st ! 0)" using D(2) by simp
  show "case parent (nodes ?st ! i) of None \<Rightarrow> i = 0 | Some q \<Rightarrow> q < i"
    if "i < length (nodes ?st)" for i using D(3)[of i] that by simp
  show "i < length (nodes ?st)" if "i \<in> set (frontier ?st) \<union> set (explored ?st)" for i
    using D(4)[of i] that unfolding f by simp
  show "distinct (frontier ?st)" using dfr nn by (simp add: distinct_heappush)
  show "distinct (explored ?st)" using D(6) by simp
  show "set (frontier ?st) \<inter> set (explored ?st) = {}" using D(7) unfolding f by simp
  show "inj_on (\<lambda>i. state (nodes ?st ! i)) (set (frontier ?st) \<union> set (explored ?st))"
    unfolding f using D(8) by simp
  show "\<not> terminal (nodes ?st ! i)" if "i \<in> set (explored ?st)" for i
    using D(9)[of i] that by simp
qed

lemma expand_child_inv:
  assumes inv: "search_inv st" and nid: "nid < length (nodes st)"
    and res: "expand_child update_state heuristic nid act st = Inr st'"
  shows "search_inv st' \<and> explored st' = explored st \<and> expansions st' = expansions st \<and>
         length (nodes st) \<le> length (nodes st')"
proof -
  obtain s' r t where us: "update_state act (state (nodes st ! nid)) = (s', r, t)"
    by (cases "update_state act (state (nodes st ! nid))")
  obtain hv where h: "heuristic s' = Inr hv"
    using res us by (cases "heuristic s'") (simp_all add: expand_child_def Let_def)
  define child where "child = \<lparr>g = g (nodes st ! nid) - r - hv, action = Some act, state = s',
      reward = r, terminal = t, parent = Some nid\<rparr>"
  define st1 where "st1 = st\<lparr>nodes := nodes st @ [child]\<rparr>"
  have inv1: "search_inv st1"
    unfolding st1_def by (rule search_inv_append[OF inv _ nid]) (simp add: child_def)
  have cid: "nodes st1 ! length (nodes st) = child" by (simp add: st1_def)
  show ?thesis
  proof (cases "\<not> node_in (nodes st1) child (explored st1) \<and> \<not> node_in (nodes st1) child (frontier st1)")
    case True
    have st': "st' = st1\<lparr>frontier := heappush (node_lt (nodes st1)) (frontier st1) (length (nodes st)),
                       branchFactor := branchFactor st1 + 1\<rparr>"
      using res us h True unfolding st1_def child_def
      by (auto simp add: expand_child_def Let_def)
    have b: "\<And>i. i \<in> set (frontier st) \<union> set (explored st) \<Longrightarrow> i < length (nodes st)"
      using search_invD(4)[OF inv] .
    have "search_inv (st1\<lparr>frontier := heappush (node_lt (nodes st1)) (frontier st1) (length (nodes st))\<rparr>)"
    proof (rule search_inv_push[OF inv1])
      show "length (nodes st) < length (nodes st1)" by (simp add: st1_def)
      show "length (nodes st) \<notin> set (frontier st1) \<union> set (explored st1)"
        using b by (auto simp: st1_def)
      show "state (nodes st1 ! i) \<noteq> state (nodes st1 ! length (nodes st))"
        if "i \<in> set (frontier st1) \<union> set (explored st1)" for i
        using True that unfolding node_in_iff cid by blast
    qed
    then show ?thesis unfolding st' by (simp add: st1_def)
  next
    case False
    have st': "st' = st1\<lparr>duplicate_states := duplicate_states st1 + 1\<rparr>"
      using res us h False unfolding st1_def child_def
      by (auto simp add: expand_child_def Let_def)
    show ?thesis unfolding st' using inv1 by (simp add: st1_def)
  qed
qed

lemma expand_inv:
  assumes "search_inv st" "nid < length (nodes st)"
    "expand update_state heuristic nid acts st = Inr st'"
  shows "search_inv st' \<and> explored st' = explored st \<and> expansions st' = expansions st \<and>
         length (nodes st) \<le> length (nodes st')"
  using assms
proof (induction acts arbitrary: st)
  case Nil
  then show ?case by simp
next
  case (Cons a acts)
  from Cons.prems(3) obtain st1 where
    1: "expand_child update_state heuristic nid a st = Inr st1" and
    2: "expand update_state heuristic nid acts st1 = Inr st'"
    by (cases "expand_child update_state heuristic nid a st") simp_all
  note c = expand_child_inv[OF Cons.prems(1,2) 1]
  have "nid < length (nodes st1)" using c Cons.prems(2) by simp
  from Cons.IH[OF _ this 2] c show ?case by simp
qed

lemma pop_facts:
  assumes inv: "search_inv st" and ne: "frontier st \<noteq> []"
    and pop: "heappop (node_lt (nodes st)) (frontier st) = (nid, fr)"
  shows "set (frontier st) = insert nid (set fr)" "nid \<notin> set fr" "distinct fr"
    "nid < length (nodes st)" "nid \<notin> set (explored st)"
    "\<not> node_in (nodes st) (nodes st ! nid) (explored st)"
proof -
  note D = search_invD[OF inv]
  show s: "set (frontier st) = insert nid (set fr)" by (rule heappop_set(1)[OF ne pop])
  show "nid \<notin> set fr" "distinct fr" using heappop_set(2)[OF ne pop D(5)] by simp_all
  have mem: "nid \<in> set (frontier st)" using s by simp
  show "nid < length (nodes st)" using D(4)[of nid] mem by simp
  show nex: "nid \<notin> set (explored st)" using D(7) mem by auto
  show "\<not> node_in (nodes st) (nodes st ! nid) (explored st)"
  proof
    assume "node_in (nodes st) (nodes st ! nid) (explored st)"
    then obtain i where i: "i \<in> set (explored st)" and e: "state (nodes st ! i) = state (nodes st ! nid)"
      unfolding node_in_iff by blast
    have "i = nid" using inj_onD[OF D(8) e] i mem by simp
    with i nex show False by simp
  qed
qed

lemma AStar_iteration_unfold:
  assumes inv: "search_inv st" and ne: "frontier st \<noteq> []"
    and pop: "heappop (node_lt (nodes st)) (frontier st) = (nid, fr)"
  shows "AStar_iteration update_state heuristic st =
    (let node = nodes st ! nid; st2 = st\<lparr>frontier := fr, expansions := expansions st + 1\<rparr> in
     case parent node of
       Some p \<Rightarrow>
         (let expected = g (nodes st ! p) - reward node;
              ns = (nodes st)[nid := node\<lparr>g := expected\<rparr>] in
          if terminal node then
            (if g node = expected then Inr (Accept nid st2)
             else Inr (Continue (st2\<lparr>nodes := ns, frontier := heappush (node_lt ns) fr nid\<rparr>)))
          else expand_node update_state heuristic nid (st2\<lparr>nodes := ns\<rparr>))
     | None \<Rightarrow> expand_node update_state heuristic nid st2)"
  using pop_facts(6)[OF inv ne pop]
  by (simp add: AStar_iteration_def pop Let_def split: option.split)

lemma expand_node_inv:
  assumes inv: "search_inv st" and fr: "set (frontier st) = insert nid (set fr)"
    and nn: "nid \<notin> set fr" and dfr: "distinct fr" and nt: "\<not> terminal (nodes st ! nid)"
    and nl: "nid < length (nodes st)"
    and res: "expand_node update_state heuristic nid (st\<lparr>frontier := fr, expansions := e\<rparr>) = Inr out"
  shows "\<exists>st'. out = Continue st' \<and> search_inv st' \<and> expansions st' = e \<and>
           explored st' = explored st @ [nid] \<and> length (nodes st) \<le> length (nodes st')"
proof -
  let ?st1 = "st\<lparr>frontier := fr, expansions := e, explored := explored st @ [nid]\<rparr>"
  have "search_inv ((st\<lparr>frontier := fr, explored := explored st @ [nid]\<rparr>)\<lparr>expansions := e\<rparr>)"
    using search_inv_close[OF inv fr nn dfr nt] by (simp only: search_inv_counters)
  moreover have "(st\<lparr>frontier := fr, explored := explored st @ [nid]\<rparr>)\<lparr>expansions := e\<rparr> = ?st1"
    by simp
  ultimately have inv1: "search_inv ?st1" by simp
  obtain st' where ex: "expand update_state heuristic nid
      (selectable_pairs (state (nodes st ! nid))) ?st1 = Inr st'" and out: "out = Continue st'"
    using res by (auto simp: expand_node_def Let_def split: sum.splits)
  have "nid < length (nodes ?st1)" using nl by simp
  from expand_inv[OF inv1 this ex] out show ?thesis by simp
qed

lemma AStar_iteration_inv:
  assumes inv: "search_inv st" and ne: "frontier st \<noteq> []"
    and res: "AStar_iteration update_state heuristic st = Inr (Continue st')"
  shows "search_inv st' \<and> expansions st' = expansions st + 1 \<and>
         length (nodes st) \<le> length (nodes st') \<and> set (explored st) \<subseteq> set (explored st')"
proof -
  obtain nid fr where pop: "heappop (node_lt (nodes st)) (frontier st) = (nid, fr)"
    by (cases "heappop (node_lt (nodes st)) (frontier st)")
  note P = pop_facts[OF inv ne pop]
  note D = search_invD[OF inv]
  note U = AStar_iteration_unfold[OF inv ne pop, of update_state heuristic]
  show ?thesis
  proof (cases "parent (nodes st ! nid)")
    case None
    then have "nid = 0" using D(3)[OF P(4)] by simp
    then have nt: "\<not> terminal (nodes st ! nid)" using D(2) by simp
    have "expand_node update_state heuristic nid (st\<lparr>frontier := fr, expansions := expansions st + 1\<rparr>) =
          Inr (Continue st')"
      using res U None by (simp add: Let_def)
    from expand_node_inv[OF inv P(1,2,3) nt P(4) this] show ?thesis by auto
  next
    case (Some p)
    let ?ns = "(nodes st)[nid := (nodes st ! nid)\<lparr>g := g (nodes st ! p) - reward (nodes st ! nid)\<rparr>]"
    let ?stg = "st\<lparr>nodes := ?ns\<rparr>"
    have invg: "search_inv ?stg" by (rule search_inv_g_update[OF inv])
    show ?thesis
    proof (cases "terminal (nodes st ! nid)")
      case True
      then have st': "st' = st\<lparr>frontier := fr, expansions := expansions st + 1, nodes := ?ns,
            frontier := heappush (node_lt ?ns) fr nid\<rparr>"
        using res U Some by (simp add: Let_def split: if_splits)
      have "search_inv (?stg\<lparr>frontier := heappush (node_lt ?ns) fr nid\<rparr>)"
        by (rule search_inv_pop[OF invg]) (use P in simp_all)
      then show ?thesis unfolding st' by (simp add: search_inv_def)
    next
      case False
      have nt: "\<not> terminal (nodes ?stg ! nid)" using False by simp
      have eq: "st\<lparr>frontier := fr, expansions := expansions st + 1, nodes := ?ns\<rparr> =
          ?stg\<lparr>frontier := fr, expansions := expansions st + 1\<rparr>" by simp
      have "expand_node update_state heuristic nid (?stg\<lparr>frontier := fr, expansions := expansions st + 1\<rparr>) =
          Inr (Continue st')"
        using res U Some False unfolding eq[symmetric] by (simp add: Let_def)
      from expand_node_inv[OF invg _ P(2,3) nt _ this] P(1,4) show ?thesis by auto
    qed
  qed
qed

lemma reach_search_inv: "reach update_state heuristic s st \<Longrightarrow> search_inv st"
proof (induction rule: reach.induct)
  case reach_init
  show ?case by (rule search_inv_init)
next
  case (reach_step st st')
  then show ?case using AStar_iteration_inv by blast
qed


lemma iteration_1x1:
  "AStar_iteration single_shot (astar_heuristic argsort) (AStar_init problem_1x1) =
     Inr (Continue (after_root_1x1 1))"
  "AStar_iteration single_shot unit_heuristic (AStar_init problem_1x1) =
     Inr (Continue (after_root_1x1 0))"
  by code_simp+

lemma reach_after_root_1x1:
  "reach single_shot (astar_heuristic argsort) problem_1x1 (after_root_1x1 1)"
  "reach single_shot unit_heuristic problem_1x1 (after_root_1x1 0)"
  by (rule reach_step[OF reach_init _ iteration_1x1(1)], simp add: AStar_init_simps)
     (rule reach_step[OF reach_init _ iteration_1x1(2)], simp add: AStar_init_simps)


lemma pop_after_root_1x1: "heappop (node_lt (nodes (after_root_1x1 gv))) (frontier (after_root_1x1 gv)) = (1, [])"
  by (simp add: after_root_1x1_def heappop_def)


lemma iteration_outcome:
  assumes inv: "search_inv st" and ne: "frontier st \<noteq> []"
    and pop: "heappop (node_lt (nodes st)) (frontier st) = (nid, fr)"
    and res: "AStar_iteration update_state heuristic st = Inr out"
  shows "case out of
           Accept n st' \<Rightarrow> n = nid \<and> terminal (nodes st ! nid) \<and> explored st' = explored st \<and>
             expansions st' = expansions st + 1
         | Continue st' \<Rightarrow> expansions st' = expansions st + 1 \<and>
             (if terminal (nodes st ! nid)
              then explored st' = explored st \<and> nid \<in> set (frontier st')
              else explored st' = explored st @ [nid])"
proof -
  note P = pop_facts[OF inv ne pop]
  note D = search_invD[OF inv]
  note U = AStar_iteration_unfold[OF inv ne pop, of update_state heuristic]
  show ?thesis
  proof (cases "parent (nodes st ! nid)")
    case None
    then have "nid = 0" using D(3)[OF P(4)] by simp
    then have nt: "\<not> terminal (nodes st ! nid)" using D(2) by simp
    have "expand_node update_state heuristic nid (st\<lparr>frontier := fr, expansions := expansions st + 1\<rparr>) =
          Inr out"
      using res U None by (simp add: Let_def)
    from expand_node_inv[OF inv P(1,2,3) nt P(4) this] nt show ?thesis by auto
  next
    case (Some p)
    let ?ns = "(nodes st)[nid := (nodes st ! nid)\<lparr>g := g (nodes st ! p) - reward (nodes st ! nid)\<rparr>]"
    let ?stg = "st\<lparr>nodes := ?ns\<rparr>"
    have invg: "search_inv ?stg" by (rule search_inv_g_update[OF inv])
    show ?thesis
    proof (cases "terminal (nodes st ! nid)")
      case True
      then show ?thesis using res U Some
        by (auto simp add: Let_def set_heappush split: if_splits)
    next
      case False
      have nt: "\<not> terminal (nodes ?stg ! nid)" using False by simp
      have eq: "st\<lparr>frontier := fr, expansions := expansions st + 1, nodes := ?ns\<rparr> =
          ?stg\<lparr>frontier := fr, expansions := expansions st + 1\<rparr>" by simp
      have "expand_node update_state heuristic nid (?stg\<lparr>frontier := fr, expansions := expansions st + 1\<rparr>) =
          Inr out"
        using res U Some False unfolding eq[symmetric] by (simp add: Let_def)
      from expand_node_inv[OF invg _ P(2,3) nt _ this] P(1,4) False show ?thesis by auto
    qed
  qed
qed

text \<open>
  Claim C10: in every state of a run the closed set holds only nodes that are not terminal
  (the first node is not terminal either). Each pass of the loop adds one to the counter of
  expansions, on an accepted node and on a node whose priority check failed alike; a popped
  terminal node leaves the closed set as it was: it is either accepted, or it is back in the
  frontier after the pass, where it can be popped again. A node that is not terminal is
  appended to the closed set.
\<close>

theorem closed_set_non_terminal:
  assumes "reach update_state heuristic s st"
  shows "(\<forall>i\<in>set (explored st). \<not> terminal (nodes st ! i)) \<and>
         (\<forall>nid fr out. frontier st \<noteq> [] \<and>
            heappop (node_lt (nodes st)) (frontier st) = (nid, fr) \<and>
            AStar_iteration update_state heuristic st = Inr out \<longrightarrow>
            (case out of
               Accept n st' \<Rightarrow> n = nid \<and> terminal (nodes st ! nid) \<and>
                 explored st' = explored st \<and> expansions st' = expansions st + 1
             | Continue st' \<Rightarrow> expansions st' = expansions st + 1 \<and>
                 (if terminal (nodes st ! nid)
                  then explored st' = explored st \<and> nid \<in> set (frontier st')
                  else explored st' = explored st @ [nid])))"
proof -
  have inv: "search_inv st" by (rule reach_search_inv[OF assms])
  show ?thesis using search_invD(9)[OF inv] iteration_outcome[OF inv] by blast
qed

lemma iteration_after_root_1x1_unit:
  "AStar_iteration single_shot unit_heuristic (after_root_1x1 0) =
     Inr (Continue ((after_root_1x1 1)\<lparr>expansions := 2\<rparr>))"
  by code_simp

theorem closed_set_non_terminal_witness:
  "\<not> terminal (nodes (after_root_1x1 0) ! 0) \<and>
   terminal (nodes (after_root_1x1 0) ! 1) \<and>
   AStar_iteration single_shot unit_heuristic (after_root_1x1 0) =
     Inr (Continue ((after_root_1x1 1)\<lparr>expansions := 2\<rparr>)) \<and>
   expansions ((after_root_1x1 1)\<lparr>expansions := 2\<rparr>) = expansions (after_root_1x1 0) + 1 \<and>
   explored ((after_root_1x1 1)\<lparr>expansions := 2\<rparr>) = explored (after_root_1x1 0) \<and>
   1 \<in> set (frontier ((after_root_1x1 1)\<lparr>expansions := 2\<rparr>))"
proof -
  note T = closed_set_non_terminal[OF reach_after_root_1x1(2)]
  have a: "\<not> terminal (nodes (after_root_1x1 0) ! 0)"
    using T[THEN conjunct1] by (simp add: after_root_1x1_def)
  have ne: "frontier (after_root_1x1 0) \<noteq> []" by (simp add: after_root_1x1_def)
  have t: "terminal (nodes (after_root_1x1 0) ! 1)" by (simp add: after_root_1x1_def)
  from T[THEN conjunct2, rule_format, OF conjI[OF ne conjI[OF pop_after_root_1x1 iteration_after_root_1x1_unit]]]
  have "expansions ((after_root_1x1 1)\<lparr>expansions := 2\<rparr>) = expansions (after_root_1x1 0) + 1 \<and>
      explored ((after_root_1x1 1)\<lparr>expansions := 2\<rparr>) = explored (after_root_1x1 0) \<and>
      1 \<in> set (frontier ((after_root_1x1 1)\<lparr>expansions := 2\<rparr>))"
    using t by (simp add: after_root_1x1_def)
  with a t iteration_after_root_1x1_unit show ?thesis by blast
qed

lemma state_eq_iff:
  "(s1::state) = s2 \<longleftrightarrow>
     Effectors s1 = Effectors s2 \<and> Targets s1 = Targets s2 \<and> Opportunities s1 = Opportunities s2"
  by (cases s1; cases s2) auto

text \<open>
  Claim C6: two nodes are equal exactly when their three arrays are equal, whatever their
  priority, action, reward and parent. In the expansion, a child whose state equals the state
  of no node of the closed set and of no node of the frontier is pushed onto the frontier and
  counted in the branch factor; when some node of either collection has an equal state the
  frontier stays as it is and the child is counted as a duplicate.
\<close>

theorem expand_child_duplicate_check:
  assumes "\<forall>i\<in>set (frontier st) \<union> set (explored st). i < length (nodes st)"
    and "update_state act (state (nodes st ! nid)) = (new_state, rew, term)"
    and "heuristic new_state = Inr h"
  shows "(\<forall>a b. Node_eq a b \<longleftrightarrow>
            Effectors (state a) = Effectors (state b) \<and> Targets (state a) = Targets (state b) \<and>
            Opportunities (state a) = Opportunities (state b)) \<and>
         (case expand_child update_state heuristic nid act st of
            Inl e \<Rightarrow> False
          | Inr st' \<Rightarrow>
              nodes st' = nodes st @ [\<lparr>g = g (nodes st ! nid) - rew - h, action = Some act,
                 state = new_state, reward = rew, terminal = term, parent = Some nid\<rparr>] \<and>
              explored st' = explored st \<and>
              (if \<exists>i\<in>set (explored st) \<union> set (frontier st).
                    Effectors (state (nodes st ! i)) = Effectors new_state \<and>
                    Targets (state (nodes st ! i)) = Targets new_state \<and>
                    Opportunities (state (nodes st ! i)) = Opportunities new_state
               then frontier st' = frontier st \<and> branchFactor st' = branchFactor st \<and>
                    duplicate_states st' = duplicate_states st + 1
               else frontier st' = heappush (node_lt (nodes st')) (frontier st) (length (nodes st)) \<and>
                    mset (frontier st') = add_mset (length (nodes st)) (mset (frontier st)) \<and>
                    branchFactor st' = branchFactor st + 1 \<and>
                    duplicate_states st' = duplicate_states st))"
proof -
  define child where "child = \<lparr>g = g (nodes st ! nid) - rew - h, action = Some act,
      state = new_state, reward = rew, terminal = term, parent = Some nid\<rparr>"
  have old: "\<And>i. i \<in> set (frontier st) \<union> set (explored st) \<Longrightarrow> (nodes st @ [child]) ! i = nodes st ! i"
    using assms(1) by (simp add: nth_append)
  have in_iff: "node_in (nodes st @ [child]) child ids \<longleftrightarrow>
      (\<exists>i\<in>set ids. Effectors (state (nodes st ! i)) = Effectors new_state \<and>
                    Targets (state (nodes st ! i)) = Targets new_state \<and>
                    Opportunities (state (nodes st ! i)) = Opportunities new_state)"
    if "set ids \<subseteq> set (frontier st) \<union> set (explored st)" for ids
  proof -
    have sc: "state child = new_state" by (simp add: child_def)
    have "(\<exists>i\<in>set ids. state ((nodes st @ [child]) ! i) = state child) \<longleftrightarrow>
          (\<exists>i\<in>set ids. state (nodes st ! i) = new_state)"
    proof (rule bex_cong[OF refl])
      fix i assume "i \<in> set ids"
      then have "(nodes st @ [child]) ! i = nodes st ! i" using old that by blast
      then show "(state ((nodes st @ [child]) ! i) = state child) = (state (nodes st ! i) = new_state)"
        using sc by simp
    qed
    then have "node_in (nodes st @ [child]) child ids \<longleftrightarrow> (\<exists>i\<in>set ids. state (nodes st ! i) = new_state)"
      unfolding node_in_iff .
    then show ?thesis by (simp add: state_eq_iff)
  qed
  have 1: "\<forall>a b. Node_eq a b \<longleftrightarrow>
            Effectors (state a) = Effectors (state b) \<and> Targets (state a) = Targets (state b) \<and>
            Opportunities (state a) = Opportunities (state b)"
    by (simp add: Node_eq_iff state_eq_iff)
  let ?dup = "\<exists>i\<in>set (explored st) \<union> set (frontier st).
                    Effectors (state (nodes st ! i)) = Effectors new_state \<and>
                    Targets (state (nodes st ! i)) = Targets new_state \<and>
                    Opportunities (state (nodes st ! i)) = Opportunities new_state"
  let ?test = "\<not> node_in (nodes st @ [child]) child (explored st) \<and>
               \<not> node_in (nodes st @ [child]) child (frontier st)"
  have cond: "?test \<longleftrightarrow> \<not> ?dup"
    using in_iff[of "explored st"] in_iff[of "frontier st"] by blast
  have ec: "expand_child update_state heuristic nid act st =
      (if ?test
       then Inr (st\<lparr>nodes := nodes st @ [child],
                    frontier := heappush (node_lt (nodes st @ [child])) (frontier st) (length (nodes st)),
                    branchFactor := branchFactor st + 1\<rparr>)
       else Inr (st\<lparr>nodes := nodes st @ [child], duplicate_states := duplicate_states st + 1\<rparr>))"
    by (simp add: expand_child_def assms(2,3) Let_def child_def[symmetric])
  have 2: "case expand_child update_state heuristic nid act st of
            Inl e \<Rightarrow> False
          | Inr st' \<Rightarrow>
              nodes st' = nodes st @ [child] \<and>
              explored st' = explored st \<and>
              (if ?dup
               then frontier st' = frontier st \<and> branchFactor st' = branchFactor st \<and>
                    duplicate_states st' = duplicate_states st + 1
               else frontier st' = heappush (node_lt (nodes st')) (frontier st) (length (nodes st)) \<and>
                    mset (frontier st') = add_mset (length (nodes st)) (mset (frontier st)) \<and>
                    branchFactor st' = branchFactor st + 1 \<and>
                    duplicate_states st' = duplicate_states st)"
  proof (cases ?dup)
    case True
    then have "\<not> ?test" using cond by blast
    then show ?thesis unfolding ec using True by simp
  next
    case False
    then have "?test" using cond by blast
    then show ?thesis unfolding ec using False by (simp add: mset_heappush)
  qed
  show ?thesis using 1 2 unfolding child_def by blast
qed

lemma single_shot_1x1: "single_shot (0, 0) problem_1x1 = (state_after_1x1, 9, True)"
  by code_simp

theorem expand_child_duplicate_check_witness:
  "case expand_child single_shot ucs_heuristic 0 (0, 0)
          ((AStar_init problem_1x1)\<lparr>frontier := [], explored := [0]\<rparr>) of
     Inl e \<Rightarrow> False
   | Inr st' \<Rightarrow> frontier st' = [1] \<and> branchFactor st' = 1 \<and> duplicate_states st' = 0"
proof -
  let ?st = "(AStar_init problem_1x1)\<lparr>frontier := [], explored := [0]\<rparr>"
  have b: "\<forall>i\<in>set (frontier ?st) \<union> set (explored ?st). i < length (nodes ?st)"
    by (simp add: AStar_init_simps)
  have u: "single_shot (0, 0) (state (nodes ?st ! 0)) = (state_after_1x1, 9, True)"
    by (simp add: AStar_init_simps single_shot_1x1)
  have h: "ucs_heuristic state_after_1x1 = Inr 0" by (simp add: ucs_heuristic_def)
  have ne: "Targets problem_1x1 \<noteq> Targets state_after_1x1"
    by (simp add: problem_1x1_def state_after_1x1_def)
  show ?thesis
    using expand_child_duplicate_check[of ?st single_shot "(0, 0)" 0 state_after_1x1 9 True
            ucs_heuristic 0, OF b u h, THEN conjunct2] ne
    by (auto simp: AStar_init_simps heappush_Nil split: sum.splits)
qed
















lemma engage_eq: "engage n p v r = r + engagements n v p"
  by (induction n arbitrary: v r) (simp_all add: Let_def)

lemma sorted_le_last:
  assumes "sorted ys" "y \<in> set ys"
  shows "y \<le> last ys"
proof -
  from assms(2) obtain i where i: "i < length ys" "ys ! i = y" by (auto simp: in_set_conv_nth)
  then have ne: "ys \<noteq> []" by auto
  have "ys ! i \<le> ys ! (length ys - 1)"
    using assms(1) i(1) by (intro sorted_nth_mono) simp_all
  then show ?thesis using i(2) by (simp add: last_conv_nth[OF ne])
qed

lemma sort_key_argpartition:
  assumes "distinct xs" "set xs = {0..<length a}"
  shows "a \<noteq> [] \<longrightarrow>
        distinct (sort_key (\<lambda>i. a ! i) xs) \<and> set (sort_key (\<lambda>i. a ! i) xs) = {0..<length a} \<and>
        (\<forall>j<length a. a ! j \<le> a ! last (sort_key (\<lambda>i. a ! i) xs))"
proof
  assume ne: "a \<noteq> []"
  let ?ys = "sort_key (\<lambda>i. a ! i) xs"
  have s: "set ?ys = {0..<length a}" using assms(2) by simp
  have "0 \<in> set ?ys" unfolding s using ne by simp
  then have yne: "?ys \<noteq> []" by (metis empty_iff empty_set)
  have "a ! j \<le> a ! last ?ys" if "j < length a" for j
  proof -
    have "j \<in> set ?ys" using s that by simp
    then have "a ! j \<in> set (map (\<lambda>i. a ! i) ?ys)" by (simp add: image_iff) blast
    then have "a ! j \<le> last (map (\<lambda>i. a ! i) ?ys)"
      by (intro sorted_le_last) (simp_all add: sorted_sort_key)
    then show ?thesis by (simp add: last_map[OF yne])
  qed
  then show "distinct ?ys \<and> set ?ys = {0..<length a} \<and> (\<forall>j<length a. a ! j \<le> a ! last ?ys)"
    using assms(1) s by simp
qed

lemma argsort_ok: "argpartition_ok argsort"
  unfolding argpartition_ok_def argsort_def
  by (intro allI sort_key_argpartition) simp_all

lemma argsort_rev_ok: "argpartition_ok argsort_rev"
  unfolding argpartition_ok_def argsort_rev_def
  by (intro allI sort_key_argpartition) simp_all

lemma top_effector_max:
  assumes ok: "argpartition_ok ap" and ne: "col \<noteq> []"
  shows "\<exists>e. top_effector ap col = Inr e \<and> e < length col \<and>
             (\<forall>j<length col. PSUCCESS (col ! j) \<le> PSUCCESS (col ! e)) \<and>
             PSUCCESS (col ! e) = Max (set (map PSUCCESS col))"
proof -
  let ?a = "map PSUCCESS col"
  let ?e = "last (ap ?a)"
  have ane: "?a \<noteq> []" using ne by simp
  from ok ane have d: "set (ap ?a) = {0..<length ?a}" and m: "\<forall>j<length ?a. ?a ! j \<le> ?a ! ?e"
    unfolding argpartition_ok_def by blast+
  have "0 \<in> set (ap ?a)" unfolding d using ane by simp
  then have "ap ?a \<noteq> []" by (metis empty_iff empty_set)
  then have "?e \<in> set (ap ?a)" by simp
  then have el: "?e < length col" using d by simp
  have le: "\<forall>j<length col. PSUCCESS (col ! j) \<le> PSUCCESS (col ! ?e)" using m el by simp
  have "Max (set ?a) = PSUCCESS (col ! ?e)"
  proof (rule Max_eqI)
    show "finite (set ?a)" by simp
    show "y \<le> PSUCCESS (col ! ?e)" if "y \<in> set ?a" for y
      using that le by (auto simp: in_set_conv_nth)
    show "PSUCCESS (col ! ?e) \<in> set ?a" using el by simp
  qed
  then show ?thesis using el le ne by (simp add: top_effector_def Let_def)
qed

lemma selectable_sum:
  assumes "\<And>row. row \<in> set opps \<Longrightarrow> SELECTABLE (row ! i) = 0 \<or> SELECTABLE (row ! i) = 1"
  shows "sum_list (map (\<lambda>opp. SELECTABLE opp * 2) (map (\<lambda>row. row ! i) opps)) =
         2 * of_nat (length (filter (\<lambda>row. SELECTABLE (row ! i) = 1) opps))"
  using assms
proof (induction opps)
  case Nil
  then show ?case by simp
next
  case (Cons row opps)
  have "SELECTABLE (row ! i) = 0 \<or> SELECTABLE (row ! i) = 1" using Cons.prems by simp
  moreover have "sum_list (map (\<lambda>opp. SELECTABLE opp * 2) (map (\<lambda>row. row ! i) opps)) =
         2 * of_nat (length (filter (\<lambda>row. SELECTABLE (row ! i) = 1) opps))"
    using Cons by simp
  ultimately show ?case by auto
qed

lemma py_int_of_nat: "py_int (of_nat k) = int k"
  by (simp add: py_int_def)

lemma slots_nat:
  assumes "sel = 0 \<or> sel = 1 / 2"
  shows "\<exists>k. min (2 * (1 - sel)) (2 * of_nat c) = (of_nat k :: rat)"
proof -
  from assms consider "sel = 0" | "sel = 1 / 2" by blast
  then show ?thesis
  proof cases
    case 1
    have "min (2 * (1 - sel)) (2 * of_nat c) = (of_nat (min 2 (2 * c)) :: rat)"
      unfolding 1 by (simp add: min_def)
    then show ?thesis by blast
  next
    case 2
    have "min (2 * (1 - sel)) (2 * of_nat c) = (of_nat (min 1 (2 * c)) :: rat)"
      unfolding 2 by (simp add: min_def)
    then show ?thesis by blast
  qed
qed

lemma heuristic_target_spec:
  assumes ok: "argpartition_ok ap" and wf: "wf_state s" and i: "i < length (Targets s)"
  shows "heuristic_target ap s i (Targets s ! i) r = Inr (r + target_contribution s i)"
proof (cases "SELECTED (Targets s ! i) = 1")
  case True
  then show ?thesis by (simp add: heuristic_target_def target_contribution_def)
next
  case False
  let ?tgt = "Targets s ! i"
  let ?col = "map (\<lambda>row. row ! i) (Opportunities s)"
  have rows: "\<And>row. row \<in> set (Opportunities s) \<Longrightarrow> length row = length (Targets s)"
    using wf by (simp add: wf_state_def list_all_iff)
  have sel: "SELECTED ?tgt = 0 \<or> SELECTED ?tgt = 1 / 2"
    using wf i False by (auto simp: wf_state_def list_all_length)
  have sb: "\<And>row. row \<in> set (Opportunities s) \<Longrightarrow>
      SELECTABLE (row ! i) = 0 \<or> SELECTABLE (row ! i) = 1"
  proof -
    fix row assume r: "row \<in> set (Opportunities s)"
    then have "list_all (\<lambda>opp. SELECTABLE opp = 0 \<or> SELECTABLE opp = 1) row"
      using wf by (simp add: wf_state_def list_all_iff)
    moreover have "i < length row" using rows[OF r] i by simp
    ultimately show "SELECTABLE (row ! i) = 0 \<or> SELECTABLE (row ! i) = 1"
      by (simp add: list_all_length)
  qed
  have col: "column (Opportunities s) i = Inr ?col"
    using rows i by (simp add: column_def list_all_iff)
  have sum: "sum_list (map (\<lambda>opp. SELECTABLE opp * 2) ?col) = 2 * of_nat (selectable_count s i)"
    unfolding selectable_count_def by (rule selectable_sum[OF sb])
  obtain k where k: "remainingSlots s i = of_nat k"
    using slots_nat[OF sel] unfolding remainingSlots_def by blast
  have mv: "min ((1 - SELECTED ?tgt) * 2) (sum_list (map (\<lambda>opp. SELECTABLE opp * 2) ?col)) = of_nat k"
    using k unfolding sum remainingSlots_def by (simp add: mult.commute)
  let ?X = "min ((1 - SELECTED ?tgt) * 2) (sum_list (map (\<lambda>opp. SELECTABLE opp * 2) ?col))"
  have pX: "py_int ?X = int k" by (simp only: mv py_int_of_nat)
  have ht: "heuristic_target ap s i ?tgt r =
      (if py_int ?X = 0 then Inr r
       else case top_effector ap ?col of
         Inl e \<Rightarrow> Inl e
       | Inr t \<Rightarrow> Inr (engage (nat (py_int ?X)) (PSUCCESS (?col ! t)) (VALUE ?tgt) r))"
    unfolding heuristic_target_def col Let_def using False by (simp only: if_False sum.case)
  show ?thesis
  proof (cases "k = 0")
    case True
    then show ?thesis unfolding ht pX using False k
      by (simp add: target_contribution_def)
  next
    case nz: False
    have "selectable_count s i \<noteq> 0"
    proof
      assume "selectable_count s i = 0"
      then have "remainingSlots s i = 0" using sel unfolding remainingSlots_def by auto
      then show False using k nz by simp
    qed
    then have "Opportunities s \<noteq> []" unfolding selectable_count_def by auto
    then have cne: "?col \<noteq> []" by simp
    from top_effector_max[OF ok cne] obtain e where
      e: "top_effector ap ?col = Inr e" and
      pe: "PSUCCESS (?col ! e) = Max (set (map PSUCCESS ?col))" by blast
    have bp: "Max (set (map PSUCCESS ?col)) = best_probability s i"
      by (simp add: best_probability_def comp_def)
    have "heuristic_target ap s i ?tgt r =
        Inr (engage k (best_probability s i) (VALUE ?tgt) r)"
      unfolding ht pX e using nz by (simp only: sum.case pe bp nat_int of_nat_eq_0_iff int_eq_iff_numeral if_False of_nat_0_eq_iff int_ops(1)[symmetric] of_nat_eq_iff)
    then show ?thesis using False nz k
      by (simp add: target_contribution_def engage_eq)
  qed
qed

lemma heuristic_targets_spec:
  assumes ok: "argpartition_ok ap" and wf: "wf_state s"
    and ts: "\<And>j. j < length ts \<Longrightarrow> ts ! j = Targets s ! (k + j)"
    and len: "k + length ts \<le> length (Targets s)"
  shows "heuristic_targets ap s (enumerate k ts) r =
         Inr (r + sum_list (map (target_contribution s) [k..<k + length ts]))"
  using ts len
proof (induction ts arbitrary: k r)
  case Nil
  then show ?case by simp
next
  case (Cons t ts)
  have t: "t = Targets s ! k" using Cons.prems(1)[of 0] by simp
  have kl: "k < length (Targets s)" using Cons.prems(2) by simp
  have step: "heuristic_target ap s k t r = Inr (r + target_contribution s k)"
    unfolding t by (rule heuristic_target_spec[OF ok wf kl])
  have rest: "heuristic_targets ap s (enumerate (Suc k) ts) (r + target_contribution s k) =
      Inr (r + target_contribution s k +
           sum_list (map (target_contribution s) [Suc k..<Suc k + length ts]))"
  proof (rule Cons.IH)
    show "ts ! j = Targets s ! (Suc k + j)" if "j < length ts" for j
      using Cons.prems(1)[of "Suc j"] that by simp
    show "Suc k + length ts \<le> length (Targets s)" using Cons.prems(2) by simp
  qed
  have up: "[k..<k + length (t # ts)] = k # [Suc k..<Suc k + length ts]"
  proof -
    have "k < k + length (t # ts)" by simp
    from upt_conv_Cons[OF this] show ?thesis by simp
  qed
  show ?case unfolding up by (simp add: step rest)
qed

text \<open>
  Claim C4: on every state of the data model (selected fractions 0, one half or 1; selectable
  flags 0 or 1; one opportunity cell for every effector and target) and for every library
  argpartition, \<open>astar_heuristic\<close> returns the sum over the targets that \<open>heuristic_spec\<close>
  describes: a target whose selected fraction is 1 or whose remaining slots
  \<open>min (2 (1 - selected)) (2 count)\<close> are zero adds nothing, any other target adds the
  rewards of that many successive engagements at the maximal probability of success.
\<close>

theorem astar_heuristic_spec:
  assumes "argpartition_ok argpartition" and "wf_state s"
  shows "astar_heuristic argpartition s = Inr (heuristic_spec s)"
  unfolding astar_heuristic_def heuristic_spec_def
  using heuristic_targets_spec[OF assms, of "Targets s" 0 0] by simp

theorem astar_heuristic_spec_witness:
  "argpartition_ok argsort \<and> wf_state problem_2x2 \<and>
   astar_heuristic argsort problem_2x2 = Inr (heuristic_spec problem_2x2) \<and>
   heuristic_spec problem_2x2 = 123 / 5"
proof -
  have wf: "wf_state problem_2x2" by (simp add: wf_state_def problem_2x2_def)
  have v: "heuristic_spec problem_2x2 = 123 / 5" by code_simp
  show ?thesis using astar_heuristic_spec[OF argsort_ok wf] argsort_ok wf v by simp
qed

lemma best_opportunity_tie:
  "best_opportunity argsort problem_tie 0 = Inr 1"
  "best_opportunity argsort_rev problem_tie 0 = Inr 0"
  "PSUCCESS (Opportunities problem_tie ! 0 ! 0) = PSUCCESS (Opportunities problem_tie ! 1 ! 0)"
  by code_simp+

text \<open>
  Claim C5 as stated fails: with two effectors of equal probability against the target and
  an argpartition that keeps equal elements in the order of their indices (it meets the
  library's contract), the heuristic uses effector 1, not the lowest index 0.
\<close>

theorem best_opportunity_counterexample:
  "argpartition_ok argsort \<and>
   PSUCCESS (Opportunities problem_tie ! 0 ! 0) = PSUCCESS (Opportunities problem_tie ! 1 ! 0) \<and>
   best_opportunity argsort problem_tie 0 = Inr 1"
  using argsort_ok best_opportunity_tie by simp

text \<open>
  Claim C5, as the code has it: on a state of the data model with at least one effector, the
  opportunity that the heuristic engages against a target has maximal probability of success
  among all opportunities against that target. Which of several opportunities of maximal
  probability it is depends on the library's argpartition alone; the value of the heuristic
  does not depend on it, so it is the same in every run.
\<close>

theorem best_opportunity_maximal:
  assumes "argpartition_ok argpartition" and "argpartition_ok argpartition'"
    and "wf_state s" and "i < length (Targets s)" and "Opportunities s \<noteq> []"
  shows "(case best_opportunity argpartition s i of
            Inl e \<Rightarrow> False
          | Inr e \<Rightarrow> e < length (Opportunities s) \<and>
              PSUCCESS (Opportunities s ! e ! i) = best_probability s i \<and>
              (\<forall>j<length (Opportunities s).
                 PSUCCESS (Opportunities s ! j ! i) \<le> PSUCCESS (Opportunities s ! e ! i))) \<and>
         astar_heuristic argpartition s = astar_heuristic argpartition' s"
proof -
  let ?col = "map (\<lambda>row. row ! i) (Opportunities s)"
  have rows: "\<And>row. row \<in> set (Opportunities s) \<Longrightarrow> length row = length (Targets s)"
    using assms(3) by (simp add: wf_state_def list_all_iff)
  have col: "column (Opportunities s) i = Inr ?col"
    using rows assms(4) by (simp add: column_def list_all_iff)
  have cne: "?col \<noteq> []" using assms(5) by simp
  from top_effector_max[OF assms(1) cne] obtain e where
    e: "top_effector argpartition ?col = Inr e" and el: "e < length ?col" and
    le: "\<forall>j<length ?col. PSUCCESS (?col ! j) \<le> PSUCCESS (?col ! e)" and
    mx: "PSUCCESS (?col ! e) = Max (set (map PSUCCESS ?col))" by blast
  have bp: "Max (set (map PSUCCESS ?col)) = best_probability s i"
    by (simp add: best_probability_def comp_def)
  have 1: "case best_opportunity argpartition s i of
            Inl e \<Rightarrow> False
          | Inr e \<Rightarrow> e < length (Opportunities s) \<and>
              PSUCCESS (Opportunities s ! e ! i) = best_probability s i \<and>
              (\<forall>j<length (Opportunities s).
                 PSUCCESS (Opportunities s ! j ! i) \<le> PSUCCESS (Opportunities s ! e ! i))"
    unfolding best_opportunity_def col using e el le mx[unfolded bp] by simp
  have 2: "astar_heuristic argpartition s = astar_heuristic argpartition' s"
    unfolding astar_heuristic_def
    using heuristic_targets_spec[OF assms(1,3), of "Targets s" 0 0]
      heuristic_targets_spec[OF assms(2,3), of "Targets s" 0 0] by simp
  show ?thesis using 1 2 by blast
qed

theorem best_opportunity_maximal_witness:
  "argpartition_ok argsort \<and> argpartition_ok argsort_rev \<and> wf_state problem_tie \<and>
   best_opportunity argsort problem_tie 0 = Inr 1 \<and>
   best_opportunity argsort_rev problem_tie 0 = Inr 0 \<and>
   PSUCCESS (Opportunities problem_tie ! 1 ! 0) = best_probability problem_tie 0 \<and>
   PSUCCESS (Opportunities problem_tie ! 0 ! 0) \<le> PSUCCESS (Opportunities problem_tie ! 1 ! 0) \<and>
   astar_heuristic argsort problem_tie = astar_heuristic argsort_rev problem_tie"
proof -
  have wf: "wf_state problem_tie" by (simp add: wf_state_def problem_tie_def)
  have i: "0 < length (Targets problem_tie)" by (simp add: problem_tie_def)
  have ne: "Opportunities problem_tie \<noteq> []" by (simp add: problem_tie_def)
  have l: "0 < length (Opportunities problem_tie)" by (simp add: problem_tie_def)
  note T = best_opportunity_maximal[OF argsort_ok argsort_rev_ok wf i ne]
  have "PSUCCESS (Opportunities problem_tie ! 1 ! 0) = best_probability problem_tie 0 \<and>
        PSUCCESS (Opportunities problem_tie ! 0 ! 0) \<le> PSUCCESS (Opportunities problem_tie ! 1 ! 0)"
    using T[THEN conjunct1] l unfolding best_opportunity_tie(1) by (auto simp del: One_nat_def)
  then show ?thesis
    using T[THEN conjunct2] argsort_ok argsort_rev_ok wf best_opportunity_tie by simp
qed

text \<open>
  Claim C9 against the code. \<open>solver\<close> appends each row when its problem completes, so a
  quit keeps the rows written before; but after an interrupt and Enter it goes on with the
  next problem, and the interrupted problem is not attempted again: it has no row at the end.
  \<open>generate_dataset\<close> keeps the rows in memory until the loop has ended, so a quit during
  problem 1 writes no file and the row of the completed problem 0 is lost.
\<close>

theorem batch_interrupt_behaviour:
  "solver 2 0 False False True ''header'' interrupt_then_enter =
     Inr ([''header'', ''row 1''], Returned) \<and>
   solver 2 0 False False True ''header'' complete_then_quit =
     Inr ([''header'', ''row 0''], Raised) \<and>
   generate_dataset 2 True complete_then_quit = (None, Raised)"
  by (simp add: solver_def generate_dataset_def interrupt_then_enter_def complete_then_quit_def
        upt_conv_Cons)

end
